theory Spec2Isabelle
  imports Main "HOL-Library.Sublist" "HOL-Library.Multiset" "HOL-Library.AList"
    "HOL-Library.List_Lexorder" "HOL-Library.Char_ord"
begin

section \<open>Task identifiers (core/task/resolver.ts)\<close>

text \<open>
  A JavaScript string is modelled as a \<^typ>\<open>string\<close>. \<open>String.prototype.indexOf\<close> with a
  one-character needle returns the first position of that character, or \<open>-1\<close>; the
  model returns \<open>None\<close> for \<open>-1\<close>.
\<close>

fun indexOf :: "char \<Rightarrow> string \<Rightarrow> nat option" where
  "indexOf c [] = None"
| "indexOf c (x # xs) = (if x = c then Some 0 else map_option Suc (indexOf c xs))"

definition createTaskId :: "string \<Rightarrow> string \<Rightarrow> string" where
  "createTaskId workspaceId taskName = workspaceId @ '':'' @ taskName"

text \<open>
  \<open>parseTaskId\<close> returns the object \<open>{workspaceId, taskName}\<close>, modelled as a pair.
  \<open>slice(0, i)\<close> is \<open>take i\<close> and \<open>slice(i + 1)\<close> is \<open>drop (i + 1)\<close>.
\<close>

definition parseTaskId :: "string \<Rightarrow> string \<times> string" where
  "parseTaskId taskId =
     (case indexOf CHR '':'' taskId of
        None \<Rightarrow> ('''', taskId)
      | Some colonIndex \<Rightarrow> (take colonIndex taskId, drop (colonIndex + 1) taskId))"

section \<open>Interpreting a process result (core/executor/runner.ts)\<close>

datatype TaskStatus = Success | Failed | Skipped | Cached

text \<open>
  The error classes of utils/errors.ts that a task result can carry. The exit code of a
  process is \<open>number | null\<close> (null when the process was killed by a signal).
\<close>

datatype TaskError =
    TaskTimeoutError string int
  | TaskExecutionError string "int option" string
  | OtherError string

record TaskResult =
  taskId :: string
  status :: TaskStatus
  duration :: int
  output' :: "string option"
  error :: "TaskError option"

record ProcessResult =
  exitCode :: "int option"
  stdout :: string
  stderr :: string
  killed :: bool

text \<open>
  The fields of a task definition that the functions modelled here read: the runner
  reads \<open>allowFailure\<close> and \<open>timeout\<close>, the fingerprinter \<open>command\<close>, \<open>env\<close> and
  \<open>inputs\<close>. A command is a shell string, a list of shell strings, or an object
  \<open>{command, args?, cwd?, shell?}\<close>; \<open>env\<close> is a record of strings, kept as the list of
  its properties in the order in which the object enumerates them (the order of their
  insertion, for keys that are not array indices), which is the order in which
  \<open>JSON.stringify\<close> writes them. An optional field is \<open>None\<close> when absent;
  JavaScript's truthiness test \<open>if (task.definition.allowFailure)\<close> holds for
  \<open>Some True\<close> only.
\<close>

datatype CommandSpec =
    ShellString string
  | ShellList "string list"
  | CommandObject string "string list option" "string option" "bool option"

record TaskDefinition =
  command :: CommandSpec
  env :: "(string \<times> string) list option"
  inputs :: "string list option"
  allowFailure :: "bool option"
  timeout :: "int option"

record ResolvedTask =
  id' :: string
  definition' :: TaskDefinition
  dependencies :: "string list"

definition DEFAULT_TIMEOUT :: int where
  "DEFAULT_TIMEOUT = 300000"

text \<open>
  \<open>handleProcessResult\<close>: \<open>now\<close> is the value of \<open>Date.now()\<close> at entry. The calls to the
  logger do not influence the returned value and are left out.
\<close>

definition handleProcessResult :: "ResolvedTask \<Rightarrow> ProcessResult \<Rightarrow> int \<Rightarrow> int \<Rightarrow> TaskResult" where
  "handleProcessResult task result startTime now =
     (let dur = now - startTime in
      if killed result then
        \<lparr>taskId = id' task, status = Failed, duration = dur,
         output' = Some (stdout result @ stderr result),
         error = Some (TaskTimeoutError (id' task)
                   (case timeout (definition' task) of None \<Rightarrow> DEFAULT_TIMEOUT | Some t \<Rightarrow> t))\<rparr>
      else if exitCode result \<noteq> Some 0 then
        (if allowFailure (definition' task) = Some True then
           \<lparr>taskId = id' task, status = Success, duration = dur,
            output' = Some (stdout result @ stderr result), error = None\<rparr>
         else
           \<lparr>taskId = id' task, status = Failed, duration = dur,
            output' = Some (stdout result @ stderr result),
            error = Some (TaskExecutionError (id' task) (exitCode result) (stderr result))\<rparr>)
      else
        \<lparr>taskId = id' task, status = Success, duration = dur,
         output' = Some (stdout result @ stderr result), error = None\<rparr>)"

section \<open>The cache store (core/cache/store.ts)\<close>

datatype Stream = Stdout | Stderr

record OutputChunk =
  stream :: Stream
  data :: string

record CachedFile =
  relativePath :: string
  size' :: nat

record RegistryEntry =
  inputHash :: string
  timestamp :: int
  outputs :: "string list"
  cachedFiles :: "CachedFile list"

text \<open>
  The store keeps everything below its cache directory. A path is the list of its
  segments; a file of the store is named by its path below the cache directory. The store writes JSON files and copies of output files; a
  file's content is modelled by the value that was serialised into it, so that
  \<open>JSON.parse\<close> of what \<open>JSON.stringify\<close> wrote gives the value back, and a file of any
  other shape (or a corrupt one) does not parse as the expected value. \<open>Bytes\<close> is the
  content of a copied output file, which is taken not to be the JSON text of a registry,
  of a manifest or of a list of chunks. The records \<open>TaskRegistry.entries\<close> and
  \<open>CacheManifest.active\<close> are maps from strings.
\<close>

type_synonym path = "string list"

datatype FileContent =
    RegistryJson "string \<rightharpoonup> RegistryEntry"
  | ManifestJson "string \<rightharpoonup> string"
  | ChunksJson "OutputChunk list"
  | Bytes string

text \<open>
  The disk is a map from the paths of regular files to their contents; a directory
  exists implicitly as a prefix of a file's path. The store creates every directory
  before it writes into it (\<open>mkdirSync\<close> with \<open>recursive\<close>) and tests a directory's
  existence only to decide whether to create or remove it, so with implicit directories
  \<open>mkdirSync\<close> changes nothing and \<open>rmSync(dir, {recursive, force})\<close> removes every
  file at or below the path. File operations are taken to succeed: a path used as a
  directory is not a regular file. This holds for task directories and for input
  hashes, which are hexadecimal digests.
\<close>

type_synonym disk = "path \<rightharpoonup> FileContent"

definition rmSync :: "path \<Rightarrow> disk \<Rightarrow> disk" where
  "rmSync p d = (\<lambda>q. if prefix p q then None else d q)"

definition writeFileSync :: "path \<Rightarrow> FileContent \<Rightarrow> disk \<Rightarrow> disk" where
  "writeFileSync p c d = d(p \<mapsto> c)"

text \<open>
  The state of a \<open>CacheStore\<close> object: the absolute path of its cache directory
  (\<open>join(rootDir, ".cockpit", ".cache")\<close>, as the list of its segments from the root of
  the file system), its in-memory manifest, and the files below the cache directory.
\<close>

record CacheStore =
  cacheDir :: path
  manifest :: "string \<rightharpoonup> string"
  files :: disk

text \<open>
  The workspace whose outputs are cached: its regular files (relative path to bytes) and
  the expansion of glob patterns by \<open>fast-glob\<close>, which is not part of this repository.
\<close>

record Workspace =
  wsFiles :: "string \<rightharpoonup> string"
  wsGlob :: "string list \<Rightarrow> string list"

definition taskIdToDir :: "string \<Rightarrow> string" where
  "taskIdToDir tid = concat (map (\<lambda>c. if c = CHR '':'' then ''__'' else [c]) tid)"

definition manifestPath :: path where
  "manifestPath = [''manifest.json'']"

definition getTaskDir :: "string \<Rightarrow> path" where
  "getTaskDir tid = [''results'', taskIdToDir tid]"

definition getRegistryPath :: "string \<Rightarrow> path" where
  "getRegistryPath tid = getTaskDir tid @ [''registry.json'']"

definition getHashDir :: "string \<Rightarrow> string \<Rightarrow> path" where
  "getHashDir tid h = getTaskDir tid @ [h]"

text \<open>\<open>loadRegistry\<close>: a missing or unparsable registry file is the empty registry.\<close>

definition loadRegistry :: "disk \<Rightarrow> string \<Rightarrow> (string \<rightharpoonup> RegistryEntry)" where
  "loadRegistry d tid =
     (case d (getRegistryPath tid) of
        Some (RegistryJson entries) \<Rightarrow> entries
      | _ \<Rightarrow> Map.empty)"

definition saveRegistry :: "string \<Rightarrow> (string \<rightharpoonup> RegistryEntry) \<Rightarrow> disk \<Rightarrow> disk" where
  "saveRegistry tid registry d = writeFileSync (getRegistryPath tid) (RegistryJson registry) d"

definition saveManifest :: "CacheStore \<Rightarrow> CacheStore" where
  "saveManifest s = s\<lparr>files := writeFileSync manifestPath (ManifestJson (manifest s)) (files s)\<rparr>"

definition has :: "CacheStore \<Rightarrow> string \<Rightarrow> string \<Rightarrow> bool" where
  "has s tid h = (loadRegistry (files s) tid h \<noteq> None)"

text \<open>
  \<open>join(dir, file)\<close> of \<open>node:path\<close>, for a directory given by its segments from the root
  of the file system and a relative file path returned by the glob. The file path is
  split at its separators and the result is normalised, as \<open>join\<close> does: an empty segment
  and \<open>.\<close> are dropped, and \<open>..\<close> removes the segment before it (at the root there is
  none to remove).
\<close>

fun splitPath :: "string \<Rightarrow> string list" where
  "splitPath [] = [ [] ]"
| "splitPath (c # cs) =
     (if c = CHR ''/'' then [] # splitPath cs
      else (case splitPath cs of [] \<Rightarrow> [ [c] ] | seg # segs \<Rightarrow> (c # seg) # segs))"

fun normalizeFrom :: "path \<Rightarrow> string list \<Rightarrow> path" where
  "normalizeFrom dir [] = dir"
| "normalizeFrom dir (seg # segs) =
     (if seg = [] \<or> seg = ''.'' then normalizeFrom dir segs
      else if seg = ''..'' then normalizeFrom (butlast dir) segs
      else normalizeFrom (dir @ [seg]) segs)"

definition joinPath :: "path \<Rightarrow> string \<Rightarrow> path" where
  "joinPath dir file = normalizeFrom dir (splitPath file)"

text \<open>
  The destination \<open>join(outputsDir, file)\<close> of a copy, as a path below the cache
  directory; \<open>outputsDir\<close> is given below the cache directory. A file path with enough
  \<open>..\<close> segments leads out of the outputs directory, and out of the cache directory:
  then the destination is not a file of the store, which is \<open>None\<close>.
\<close>

definition destPath :: "path \<Rightarrow> path \<Rightarrow> string \<Rightarrow> path option" where
  "destPath cdir outputsDir file =
     (let p = joinPath (cdir @ outputsDir) file
      in if prefix cdir p then Some (drop (length cdir) p) else None)"

text \<open>
  \<open>saveOutputFiles\<close>: the loop over the files the glob matched. A file that cannot be
  copied (it is not in the workspace any more) is skipped by the \<open>catch\<close>. A copy to a
  destination outside the cache directory leaves the files of the store as they are.
\<close>

fun copyOutputFiles :: "path \<Rightarrow> path \<Rightarrow> Workspace \<Rightarrow> string list \<Rightarrow> CachedFile list \<times> disk
    \<Rightarrow> CachedFile list \<times> disk" where
  "copyOutputFiles cdir outputsDir ws [] acc = acc"
| "copyOutputFiles cdir outputsDir ws (file # rest) (cached, d) =
     (case wsFiles ws file of
        None \<Rightarrow> copyOutputFiles cdir outputsDir ws rest (cached, d)
      | Some bytes \<Rightarrow>
          copyOutputFiles cdir outputsDir ws rest
            (cached @ [\<lparr>relativePath = file, size' = length bytes\<rparr>],
             case destPath cdir outputsDir file of
               None \<Rightarrow> d
             | Some destination \<Rightarrow> writeFileSync destination (Bytes bytes) d))"

definition saveOutputFiles :: "path \<Rightarrow> path \<Rightarrow> string list \<Rightarrow> Workspace \<Rightarrow> disk
    \<Rightarrow> CachedFile list \<times> disk" where
  "saveOutputFiles cdir outputsDir outputPatterns ws d =
     (if length outputPatterns = 0 then ([], d)
      else copyOutputFiles cdir outputsDir ws (wsGlob ws outputPatterns) ([], d))"

text \<open>
  \<open>CacheStore.set\<close> (the name \<open>set\<close> is taken in HOL). The fields of the options object
  are separate arguments; \<open>outputChunks\<close> is optional. \<open>now\<close> is \<open>Date.now()\<close>.
\<close>

definition set' :: "Workspace \<Rightarrow> int \<Rightarrow> string \<Rightarrow> string \<Rightarrow> string list \<Rightarrow> OutputChunk list option
    \<Rightarrow> CacheStore \<Rightarrow> CacheStore" where
  "set' ws now tid h outs outputChunks s =
     (let hashDir = getHashDir tid h;
          outputsDir = hashDir @ [''outputs''];
          d1 = rmSync hashDir (files s);
          d2 = (case outputChunks of
                  None \<Rightarrow> d1
                | Some chunks \<Rightarrow>
                    if length chunks > 0
                    then writeFileSync (hashDir @ [''output.json'']) (ChunksJson chunks) d1
                    else d1);
          (cached, d3) = saveOutputFiles (cacheDir s) outputsDir outs ws d2;
          registry = loadRegistry d3 tid;
          registry' = registry(h \<mapsto>
            \<lparr>inputHash = h, timestamp = now, outputs = outs, cachedFiles = cached\<rparr>);
          d4 = saveRegistry tid registry' d3
      in saveManifest (s\<lparr>manifest := (manifest s)(tid \<mapsto> h), files := d4\<rparr>))"

text \<open>
  \<open>invalidate\<close>: the hash is optional, and \<open>if (inputHash)\<close> takes the empty string for
  an absent hash.
\<close>

definition invalidate :: "string \<Rightarrow> string option \<Rightarrow> CacheStore \<Rightarrow> CacheStore" where
  "invalidate tid inputHashOpt s =
     (case (case inputHashOpt of None \<Rightarrow> None | Some h \<Rightarrow> if h = [] then None else Some h) of
        Some h \<Rightarrow>
          (let registry = loadRegistry (files s) tid;
               d1 = saveRegistry tid (registry(h := None)) (files s);
               d2 = rmSync (getHashDir tid h) d1;
               s1 = s\<lparr>files := d2\<rparr>
           in if manifest s1 tid = Some h
              then saveManifest (s1\<lparr>manifest := (manifest s1)(tid := None)\<rparr>)
              else s1)
      | None \<Rightarrow>
          saveManifest (s\<lparr>manifest := (manifest s)(tid := None),
                         files := rmSync (getTaskDir tid) (files s)\<rparr>))"

text \<open>
  \<open>hasOutputsOnDisk\<close>: \<open>existsSync(join(workspacePath, relativePath))\<close> is membership in
  the workspace's files.
\<close>

definition hasOutputsOnDisk :: "CacheStore \<Rightarrow> Workspace \<Rightarrow> string \<Rightarrow> string \<Rightarrow> bool" where
  "hasOutputsOnDisk s ws tid h =
     (case loadRegistry (files s) tid h of
        None \<Rightarrow> True
      | Some entry \<Rightarrow>
          if length (cachedFiles entry) = 0 then True
          else list_all (\<lambda>file. wsFiles ws (relativePath file) \<noteq> None) (cachedFiles entry))"

definition getOutputChunks :: "CacheStore \<Rightarrow> string \<Rightarrow> string \<Rightarrow> OutputChunk list option" where
  "getOutputChunks s tid h =
     (case files s (getHashDir tid h @ [''output.json'']) of
        Some (ChunksJson chunks) \<Rightarrow> Some chunks
      | _ \<Rightarrow> None)"

text \<open>
  A relative path lies inside the directory it is taken from when, read from left to
  right, it never has more \<open>..\<close> segments than segments that name a file or a
  directory. \<open>insideDir depth\<close> reads the segments from a position \<open>depth\<close> levels below
  the directory.
\<close>

fun insideDir :: "nat \<Rightarrow> string list \<Rightarrow> bool" where
  "insideDir depth [] = True"
| "insideDir depth (seg # segs) =
     (if seg = [] \<or> seg = ''.'' then insideDir depth segs
      else if seg = ''..'' then 0 < depth \<and> insideDir (depth - 1) segs
      else insideDir (Suc depth) segs)"

definition insideWorkspace :: "string \<Rightarrow> bool" where
  "insideWorkspace file = insideDir 0 (splitPath file)"

text \<open>
  An input hash is what \<open>hashTaskInputs\<close> returns: sixteen hexadecimal characters.
\<close>

definition isHexChar :: "char \<Rightarrow> bool" where
  "isHexChar c = (c \<in> set ''0123456789abcdef'')"

definition isInputHash :: "string \<Rightarrow> bool" where
  "isInputHash h = (length h = 16 \<and> list_all isHexChar h)"

section \<open>The input fingerprinter (core/cache/hash.ts)\<close>

text \<open>
  What the fingerprinter takes from the platform rather than from this repository:
  the SHA-256 digest in hexadecimal, \<open>JSON.stringify\<close> on a command, on the extra
  arguments and on the environment record, and \<open>Date.prototype.toISOString\<close>. They are
  parameters of the model. A hash object accumulates the strings passed to \<open>update\<close>;
  its digest is the digest of their concatenation.
\<close>

record Platform =
  sha256hex :: "string \<Rightarrow> string"
  stringifyCommand :: "CommandSpec \<Rightarrow> string"
  stringifyArgs :: "string list \<Rightarrow> string"
  stringifyEnv :: "(string \<times> string) list \<Rightarrow> string"
  toISOString :: "int \<Rightarrow> string"

text \<open>
  The file system as the fingerprinter sees it: \<open>fg(patterns, {cwd, ...})\<close> gives the
  relative paths of the matching files in no particular order, and \<open>statSync\<close> gives
  the modification time and the size of a file (here \<open>statSize\<close>), or throws, which is
  \<open>None\<close>.
\<close>

record Stats =
  mtime :: int
  statSize :: nat

record FileSystem =
  fg :: "string list \<Rightarrow> string \<Rightarrow> string list"
  statSync :: "string \<Rightarrow> Stats option"

text \<open>\<open>Number.prototype.toString\<close> on a file size: its decimal digits.\<close>

fun natToString :: "nat \<Rightarrow> string" where
  "natToString n =
     (if n < 10 then [char_of (48 + n)]
      else natToString (n div 10) @ [char_of (48 + n mod 10)])"

declare natToString.simps [simp del]

text \<open>
  The body of the loop of \<open>hashFiles\<close>: a file whose \<open>statSync\<close> throws is skipped by the
  \<open>catch\<close>. \<open>files.sort()\<close> sorts strings by their code units, which is the
  lexicographic order of \<^typ>\<open>string\<close>.
\<close>

definition hashFile :: "Platform \<Rightarrow> FileSystem \<Rightarrow> string \<Rightarrow> string \<Rightarrow> string \<Rightarrow> string" where
  "hashFile P F baseDir acc file =
     (case statSync F (baseDir @ ''/'' @ file) of
        None \<Rightarrow> acc
      | Some st \<Rightarrow> acc @ file @ toISOString P (mtime st) @ natToString (statSize st))"

definition hashFiles :: "Platform \<Rightarrow> FileSystem \<Rightarrow> string list \<Rightarrow> string \<Rightarrow> string" where
  "hashFiles P F patterns baseDir =
     (let files = sort (fg F patterns baseDir)
      in sha256hex P (foldl (hashFile P F baseDir) [] files))"

definition hashTaskInputs :: "Platform \<Rightarrow> FileSystem \<Rightarrow> ResolvedTask \<Rightarrow> string \<Rightarrow> string list option \<Rightarrow> string" where
  "hashTaskInputs P F task workspacePath extraArgs =
     (let h0 = stringifyCommand P (command (definition' task));
          h1 = (case extraArgs of
                  None \<Rightarrow> h0
                | Some args \<Rightarrow> if length args > 0 then h0 @ stringifyArgs P args else h0);
          h2 = (case env (definition' task) of
                  None \<Rightarrow> h1
                | Some e \<Rightarrow> h1 @ stringifyEnv P e);
          h3 = (case inputs (definition' task) of
                  None \<Rightarrow> h2 @ hashFiles P F [''**/*''] workspacePath
                | Some ins \<Rightarrow>
                    if length ins > 0 then h2 @ hashFiles P F ins workspacePath
                    else h2 @ hashFiles P F [''**/*''] workspacePath)
      in take 16 (sha256hex P h3))"

text \<open>
  The glob patterns that \<open>hashTaskInputs\<close> hands to \<open>hashFiles\<close> for a task: its
  \<open>inputs\<close> when there are any, and \<open>**/*\<close> otherwise.
\<close>

definition inputPatterns :: "ResolvedTask \<Rightarrow> string list" where
  "inputPatterns task =
     (case inputs (definition' task) of
        None \<Rightarrow> [''**/*'']
      | Some ins \<Rightarrow> if ins = [] then [''**/*''] else ins)"

section \<open>Topological sorting (core/task/topological.ts)\<close>

text \<open>
  A JavaScript \<open>Map\<close> is an association list in insertion order with distinct keys:
  \<open>get\<close> is \<open>map_of\<close>, \<open>set\<close> is \<open>AList.update\<close> (which replaces the value of a key in
  place and appends a new key at the end, as \<open>Map.prototype.set\<close> does), \<open>keys()\<close> is
  \<open>map fst\<close>. The dependency map sends a node to the list of its dependencies.
\<close>

type_synonym DepMap = "(string \<times> string list) list"

datatype GraphError = CyclicDependencyError "string list"

definition mapHas :: "(string \<times> 'v) list \<Rightarrow> string \<Rightarrow> bool" where
  "mapHas m k = (map_of m k \<noteq> None)"

text \<open>\<open>m.get(k) ?? d\<close>\<close>

definition getOr :: "(string \<times> 'v) list \<Rightarrow> string \<Rightarrow> 'v \<Rightarrow> 'v" where
  "getOr m k d = (case map_of m k of None \<Rightarrow> d | Some v \<Rightarrow> v)"

text \<open>
  The body of the inner loop that builds the reverse adjacency list \<open>graph\<close> and the
  in-degrees, for one dependency \<open>dep\<close> of \<open>nodeId\<close>.
\<close>

definition addEdge :: "DepMap \<Rightarrow> string \<Rightarrow> string
    \<Rightarrow> (string \<times> int) list \<times> (string \<times> string list) list
    \<Rightarrow> (string \<times> int) list \<times> (string \<times> string list) list" where
  "addEdge nodes nodeId dep st =
     (case st of (inDegree, graph) \<Rightarrow>
        if \<not> mapHas nodes dep then (inDegree, graph)
        else
          let dependents = getOr graph dep [] @ [nodeId];
              graph' = AList.update dep dependents graph;
              inDegree' = AList.update nodeId (getOr inDegree nodeId 0 + 1) inDegree
          in (inDegree', graph'))"

text \<open>The body of the loop over the dependents of the node taken from the queue.\<close>

definition decrementStep :: "string \<Rightarrow> (string \<times> int) list \<times> string list
    \<Rightarrow> (string \<times> int) list \<times> string list" where
  "decrementStep dependent st =
     (case st of (inDegree, queue) \<Rightarrow>
        let newDegree = getOr inDegree dependent 1 - 1;
            inDegree' = AList.update dependent newDegree inDegree
        in if newDegree = 0 then (inDegree', queue @ [dependent]) else (inDegree', queue))"

text \<open>
  The \<open>while (queue.length > 0)\<close> loop. Each round takes one node from the queue, and a
  node is put on the queue only when its in-degree falls from 1 to 0; so the sum of the
  positive in-degrees of the nodes that occur as dependents, plus the length of the
  queue, falls in every round.
\<close>

definition potential :: "(string \<times> string list) list \<Rightarrow> (string \<times> int) list \<Rightarrow> string list \<Rightarrow> nat" where
  "potential graph inDegree queue =
     (\<Sum>d \<in> set (concat (map snd graph)). nat (getOr inDegree d 1)) + length queue"

function kahnLoop :: "(string \<times> string list) list \<Rightarrow> (string \<times> int) list \<Rightarrow> string list
    \<Rightarrow> string list \<Rightarrow> string list" where
  "kahnLoop graph inDegree queue result =
     (case queue of
        [] \<Rightarrow> result
      | nodeId # rest \<Rightarrow>
          (case fold decrementStep (getOr graph nodeId []) (inDegree, rest) of
             (inDegree', queue') \<Rightarrow> kahnLoop graph inDegree' queue' (result @ [nodeId])))"
  by pat_completeness auto
termination
proof (relation "measure (\<lambda>(graph, inDegree, queue, result). potential graph inDegree queue)")
  show "wf (measure (\<lambda>(graph, inDegree, queue, result). potential graph inDegree queue))"
    by simp
next
  fix graph :: "(string \<times> string list) list" and inDegree :: "(string \<times> int) list"
    and queue result :: "string list" and nodeId rest inDegree' queue'
  assume q: "queue = nodeId # rest"
    and f: "(inDegree', queue') = fold decrementStep (getOr graph nodeId []) (inDegree, rest)"
  let ?D = "set (concat (map snd graph))"
  have step: "set ds \<subseteq> ?D \<Longrightarrow>
      potential graph (fst (fold decrementStep ds (i, qu))) (snd (fold decrementStep ds (i, qu)))
        \<le> potential graph i qu" for ds i qu
  proof (induction ds arbitrary: i qu)
    case Nil
    then show ?case by simp
  next
    case (Cons d ds)
    have fin: "finite ?D" by simp
    have dD: "d \<in> ?D" using Cons.prems by simp
    let ?n = "getOr i d 1 - 1"
    let ?i' = "AList.update d ?n i"
    have other: "getOr ?i' e 1 = getOr i e 1" if "e \<noteq> d" for e
      using that by (simp add: getOr_def update_conv')
    have self: "getOr ?i' d 1 = ?n"
      by (simp add: getOr_def update_conv')
    have sum_split: "(\<Sum>e \<in> ?D. nat (getOr j e 1)) = nat (getOr j d 1) + (\<Sum>e \<in> ?D - {d}. nat (getOr j e 1))" for j
      using fin dD by (simp add: sum.remove)
    have rest_eq: "(\<Sum>e \<in> ?D - {d}. nat (getOr ?i' e 1)) = (\<Sum>e \<in> ?D - {d}. nat (getOr i e 1))"
      by (intro sum.cong) (simp_all add: other)
    have one: "potential graph (fst (decrementStep d (i, qu))) (snd (decrementStep d (i, qu)))
        \<le> potential graph i qu"
      unfolding potential_def decrementStep_def Let_def
      using sum_split[of ?i'] sum_split[of i] rest_eq self
      by (auto split: if_splits)
    have "potential graph (fst (fold decrementStep (d # ds) (i, qu))) (snd (fold decrementStep (d # ds) (i, qu)))
        \<le> potential graph (fst (decrementStep d (i, qu))) (snd (decrementStep d (i, qu)))"
      using Cons.IH[of "fst (decrementStep d (i, qu))" "snd (decrementStep d (i, qu))"] Cons.prems
      by simp
    with one show ?case by linarith
  qed
  have sub: "set (getOr graph nodeId []) \<subseteq> ?D"
  proof
    fix e assume e: "e \<in> set (getOr graph nodeId [])"
    then obtain ds where ds: "map_of graph nodeId = Some ds" "e \<in> set ds"
      by (cases "map_of graph nodeId") (auto simp: getOr_def)
    from ds(1) have "(nodeId, ds) \<in> set graph" by (rule map_of_SomeD)
    with ds(2) show "e \<in> ?D" by force
  qed
  have "potential graph inDegree' queue' \<le> potential graph inDegree rest"
    using step[OF sub, of inDegree rest] f by (metis fst_conv snd_conv)
  then show "((graph, inDegree', queue', result @ [nodeId]), (graph, inDegree, queue, result))
      \<in> measure (\<lambda>(graph, inDegree, queue, result). potential graph inDegree queue)"
    using q by (simp add: potential_def)
qed

declare kahnLoop.simps [simp del]


subsection \<open>The cycle witness\<close>

text \<open>
  The state of \<open>detectCycle\<close> that its inner function \<open>dfs\<close> closes over. The two sets
  are only added to, removed from and tested.
\<close>

record DfsState =
  visited :: "string set"
  recursionStack :: "string set"
  path :: "string list"

text \<open>\<open>Array.prototype.indexOf\<close>: the first position of an element, \<open>None\<close> for \<open>-1\<close>.\<close>

fun indexOfList :: "'a \<Rightarrow> 'a list \<Rightarrow> nat option" where
  "indexOfList x [] = None"
| "indexOfList x (y # ys) = (if y = x then Some 0 else map_option Suc (indexOfList x ys))"

text \<open>\<open>path.slice(start)\<close>; a start of \<open>-1\<close> selects the last element.\<close>

definition sliceFrom :: "nat option \<Rightarrow> 'a list \<Rightarrow> 'a list" where
  "sliceFrom start xs = (case start of None \<Rightarrow> drop (length xs - 1) xs | Some i \<Rightarrow> drop i xs)"

text \<open>
  \<open>dfs\<close> and the \<open>for\<close> loop over the dependencies in its body. A result \<open>Some cycle\<close> is
  the returned cycle, \<open>None\<close> is \<open>null\<close>.
\<close>

function dfs :: "DepMap \<Rightarrow> string \<Rightarrow> DfsState \<Rightarrow> string list option \<times> DfsState"
  and dfsDeps :: "DepMap \<Rightarrow> string list \<Rightarrow> DfsState \<Rightarrow> string list option \<times> DfsState" where
  "dfs nodes nodeId s =
     (case dfsDeps nodes (getOr nodes nodeId [])
             (s\<lparr>visited := insert nodeId (visited s),
                recursionStack := insert nodeId (recursionStack s),
                path := path s @ [nodeId]\<rparr>) of
        (Some cycle, s') \<Rightarrow> (Some cycle, s')
      | (None, s') \<Rightarrow>
          (None, s'\<lparr>path := butlast (path s'),
                     recursionStack := recursionStack s' - {nodeId}\<rparr>))"
| "dfsDeps nodes [] s = (None, s)"
| "dfsDeps nodes (dep # rest) s =
     (if \<not> mapHas nodes dep then dfsDeps nodes rest s
      else if dep \<notin> visited s then
        (case dfs nodes dep s of
           (Some cycle, s') \<Rightarrow> (Some cycle, s')
         | (None, s') \<Rightarrow> dfsDeps nodes rest s')
      else if dep \<in> recursionStack s then
        (Some (sliceFrom (indexOfList dep (path s)) (path s) @ [dep]), s)
      else dfsDeps nodes rest s)"
  by pat_completeness auto

termination
proof (relation "inv_image (less_than <*lex*> less_than <*lex*> less_than)
     (\<lambda>x. case x of
        Inl (nodes, nodeId, s) \<Rightarrow> (card (fst ` set nodes - visited s - {nodeId}), 1::nat, 0::nat)
      | Inr (nodes, deps, s) \<Rightarrow> (card (fst ` set nodes - visited s), 0, length deps))",
    goal_cases)
  case 1
  show ?case by (intro wf_inv_image wf_lex_prod wf_less_than)
next
  case (2 nodes nodeId s)
  have "fst ` set nodes - insert nodeId (visited s) = fst ` set nodes - visited s - {nodeId}"
    by auto
  then show ?case by simp
next
  case (3 nodes dep rest s)
  then show ?case by simp
next
  case (4 nodes dep rest s)
  then have "dep \<in> fst ` set nodes - visited s"
    by (auto simp: mapHas_def dest!: map_of_SomeD) force
  then have "card (fst ` set nodes - visited s - {dep}) < card (fst ` set nodes - visited s)"
    by (intro card_Diff1_less) simp_all
  then show ?case by simp
next
  case (5 nodes dep rest s x y)
  have mono:
    "dfs_dfsDeps_dom (Inl (ns, n, t)) \<Longrightarrow> visited t \<subseteq> visited (snd (dfs ns n t))"
    "dfs_dfsDeps_dom (Inr (ns, ds, t)) \<Longrightarrow> visited t \<subseteq> visited (snd (dfsDeps ns ds t))"
    for ns n ds t
  proof (induct rule: dfs_dfsDeps.pinduct)
    case (1 nodes nodeId s)
    then show ?case
      by (auto simp: dfs.psimps split: prod.splits option.splits)
  next
    case (2 nodes s)
    then show ?case by (simp add: dfsDeps.psimps)
  next
    case (3 nodes dep rest s)
    then show ?case
      by (auto simp: dfsDeps.psimps split: prod.splits option.splits) blast
  qed
  from mono(1)[OF 5(5)] 5(3) have "visited s \<subseteq> visited y"
    by (metis snd_conv)
  then have "card (fst ` set nodes - visited y) \<le> card (fst ` set nodes - visited s)"
    by (intro card_mono) auto
  then show ?case by auto
next
  case (6 nodes dep rest s)
  then show ?case by simp
qed


declare dfs.simps [simp del]

text \<open>The loop of \<open>detectCycle\<close> over \<open>nodes.keys()\<close>.\<close>

fun detectLoop :: "DepMap \<Rightarrow> string list \<Rightarrow> DfsState \<Rightarrow> string list option" where
  "detectLoop nodes [] s = None"
| "detectLoop nodes (nodeId # rest) s =
     (if nodeId \<notin> visited s then
        (case dfs nodes nodeId s of
           (Some cycle, s') \<Rightarrow> Some cycle
         | (None, s') \<Rightarrow> detectLoop nodes rest s')
      else detectLoop nodes rest s)"

definition detectCycle :: "DepMap \<Rightarrow> string list" where
  "detectCycle nodes =
     (case detectLoop nodes (map fst nodes) \<lparr>visited = {}, recursionStack = {}, path = []\<rparr> of
        Some cycle \<Rightarrow> cycle
      | None \<Rightarrow> map fst nodes)"

subsection \<open>Kahn's algorithm\<close>

text \<open>
  \<open>topologicalSort\<close>: the two maps are initialised for every key, the edges are added,
  the queue starts with the nodes of in-degree 0 in the order of the in-degree map, and
  the loop runs. The length of the result is compared with \<open>nodes.size\<close>.
\<close>

definition topoInit :: "DepMap \<Rightarrow> (string \<times> int) list \<times> (string \<times> string list) list" where
  "topoInit nodes =
     fold (\<lambda>nodeId (inDegree, graph). (AList.update nodeId 0 inDegree, AList.update nodeId [] graph))
       (map fst nodes) ([], [])"

definition topoBuild :: "DepMap \<Rightarrow> (string \<times> int) list \<times> (string \<times> string list) list" where
  "topoBuild nodes =
     fold (\<lambda>(nodeId, deps) st. fold (addEdge nodes nodeId) deps st) nodes (topoInit nodes)"

definition topologicalSort :: "DepMap \<Rightarrow> GraphError + string list" where
  "topologicalSort nodes =
     (case topoBuild nodes of (inDegree, graph) \<Rightarrow>
        let queue = map fst (filter (\<lambda>(nodeId, degree). degree = 0) inDegree);
            result = kahnLoop graph inDegree queue []
        in if length result \<noteq> length nodes
           then Inl (CyclicDependencyError (detectCycle nodes))
           else Inr result)"

subsection \<open>Parallel levels\<close>

definition allDepsCompleted :: "DepMap \<Rightarrow> string set \<Rightarrow> string \<Rightarrow> bool" where
  "allDepsCompleted nodes completed nodeId =
     list_all (\<lambda>dep. \<not> mapHas nodes dep \<or> dep \<in> completed) (getOr nodes nodeId [])"

text \<open>
  The \<open>while (remaining.size > 0)\<close> loop of \<open>getParallelLevels\<close>. \<open>remaining\<close> is a \<open>Set\<close>
  that is iterated in insertion order, kept as the list of its elements; \<open>completed\<close> is
  only added to and tested.
\<close>

function levelsLoop :: "DepMap \<Rightarrow> string list list \<Rightarrow> string set \<Rightarrow> string list
    \<Rightarrow> GraphError + string list list" where
  "levelsLoop nodes levels completed remaining =
     (if length remaining > 0 then
        (let currentLevel = filter (allDepsCompleted nodes completed) remaining
         in if length currentLevel = 0 then Inl (CyclicDependencyError remaining)
            else levelsLoop nodes (levels @ [currentLevel]) (completed \<union> set currentLevel)
                   (filter (\<lambda>nodeId. nodeId \<notin> set currentLevel) remaining))
      else Inr levels)"
  by pat_completeness auto
termination
proof (relation "measure (\<lambda>(nodes, levels, completed, remaining). length remaining)", goal_cases)
  case 1
  show ?case by simp
next
  case (2 nodes levels completed remaining currentLevel)
  then obtain n where n: "n \<in> set remaining" "allDepsCompleted nodes completed n"
    by (auto simp: filter_empty_conv)
  then have "length (filter (\<lambda>nodeId. nodeId \<notin> set currentLevel) remaining) < length remaining"
    using 2 by (intro length_filter_less[of n]) auto
  then show ?case by simp
qed

declare levelsLoop.simps [simp del]

definition getParallelLevels :: "DepMap \<Rightarrow> GraphError + string list list" where
  "getParallelLevels nodes = levelsLoop nodes [] {} (map fst nodes)"

section \<open>The task graph (core/task/graph.ts)\<close>

record TaskGraph =
  tasks :: "(string \<times> ResolvedTask) list"
  executionOrder :: "string list"
  parallelLevels :: "string list list"
  rootTasks :: "string list"

text \<open>
  What \<open>buildTaskGraph\<close> and \<open>buildMultiWorkspaceTaskGraph\<close> do once the breadth-first
  traversal has collected the map \<open>tasks\<close>: the dependency map is filled from it, and the
  execution order and the parallel levels are computed. An exception of either function
  leaves the builder.
\<close>

definition depMapOf :: "(string \<times> ResolvedTask) list \<Rightarrow> DepMap" where
  "depMapOf ts = fold (\<lambda>(tid, task) depMap. AList.update tid (dependencies task) depMap) ts []"

definition graphOf :: "(string \<times> ResolvedTask) list \<Rightarrow> string list \<Rightarrow> GraphError + TaskGraph" where
  "graphOf ts roots =
     (let depMap = depMapOf ts in
      case topologicalSort depMap of
        Inl e \<Rightarrow> Inl e
      | Inr order \<Rightarrow>
          (case getParallelLevels depMap of
             Inl e \<Rightarrow> Inl e
           | Inr levels \<Rightarrow>
               Inr \<lparr>tasks = ts, executionOrder = order, parallelLevels = levels, rootTasks = roots\<rparr>))"

section \<open>The scheduler (core/executor/scheduler.ts)\<close>

text \<open>
  The options of a run. The \<open>run\<close> command takes \<open>concurrency\<close> from an integer flag
  without a lower bound (default 4), so it is any integer.
\<close>

record SchedulerOptions =
  concurrency :: int
  continueOnError :: bool

text \<open>
  \<open>pLimit(concurrency)\<close> of the package \<open>p-limit\<close>, which is not part of this repository,
  makes the limiter through which the tasks of a level are started. It throws a
  \<open>TypeError\<close> unless the concurrency is an integer from 1 up; a thrown error is \<open>None\<close>.
  Once made, the limiter delays the start of a task and changes neither the results nor
  their order, which is the order of the array given to \<open>Promise.all\<close>; it is the unit
  value.
\<close>

definition pLimit :: "int \<Rightarrow> unit option" where
  "pLimit limit = (if 1 \<le> limit then Some () else None)"

text \<open>
  \<open>runTask\<close> probes the cache, spawns the process and interprets its result; what it
  returns depends on the file system and on the process. Every \<open>return\<close> of \<open>runTask\<close> and
  of \<open>handleProcessResult\<close> builds the result with \<open>taskId: task.id\<close>. The rest of the
  result is given by a parameter that stands for the outcome of running the task.
\<close>

definition runTask :: "(ResolvedTask \<Rightarrow> TaskResult) \<Rightarrow> ResolvedTask \<Rightarrow> TaskResult" where
  "runTask outcome task = (outcome task)\<lparr>taskId := id' task\<rparr>"

record SchedulerState =
  results :: "TaskResult list"
  completedTasks :: "string set"
  failedTasks :: "string set"

definition skippedResult :: "string \<Rightarrow> TaskResult" where
  "skippedResult tid = \<lparr>taskId = tid, status = Skipped, duration = 0, output' = None, error = None\<rparr>"

text \<open>
  The loop that splits a level into \<open>runnableTasks\<close> and \<open>skippedTasks\<close>.
  \<open>graph.tasks.get(taskId)!\<close> is \<open>undefined\<close> for an id that is not in the map, and reading
  \<open>dependencies\<close> of it throws: the result is \<open>None\<close>.
\<close>

fun partitionLevel :: "TaskGraph \<Rightarrow> SchedulerOptions \<Rightarrow> string set \<Rightarrow> string list
    \<Rightarrow> string list \<times> string list \<Rightarrow> (string list \<times> string list) option" where
  "partitionLevel graph opts failed [] acc = Some acc"
| "partitionLevel graph opts failed (tid # rest) (runnableTasks, skippedTasks) =
     (case map_of (tasks graph) tid of
        None \<Rightarrow> None
      | Some task \<Rightarrow>
          let hasFailedDep = list_ex (\<lambda>dep. dep \<in> failed) (dependencies task)
          in if hasFailedDep \<and> \<not> continueOnError opts
             then partitionLevel graph opts failed rest (runnableTasks, skippedTasks @ [tid])
             else partitionLevel graph opts failed rest (runnableTasks @ [tid], skippedTasks))"

text \<open>
  The tasks of a level run under the limiter, and \<open>Promise.all\<close> gives their results in
  the order of \<open>runnableTasks\<close>, whatever the order in which they finish. Each task adds
  its id to \<open>completedTasks\<close> or to \<open>failedTasks\<close> when it finishes; neither set is read
  before the next level. So the level is run here one task after the other.
\<close>

fun runLevel :: "(ResolvedTask \<Rightarrow> TaskResult) \<Rightarrow> TaskGraph \<Rightarrow> string list
    \<Rightarrow> TaskResult list \<times> string set \<times> string set
    \<Rightarrow> (TaskResult list \<times> string set \<times> string set) option" where
  "runLevel outcome graph [] acc = Some acc"
| "runLevel outcome graph (tid # rest) (levelResults, completed, failed) =
     (case map_of (tasks graph) tid of
        None \<Rightarrow> None
      | Some task \<Rightarrow>
          let result = runTask outcome task
          in if status result = Success \<or> status result = Cached
             then runLevel outcome graph rest (levelResults @ [result], insert tid completed, failed)
             else if status result = Failed
             then runLevel outcome graph rest (levelResults @ [result], completed, insert tid failed)
             else runLevel outcome graph rest (levelResults @ [result], completed, failed))"

fun scheduleLevels :: "(ResolvedTask \<Rightarrow> TaskResult) \<Rightarrow> TaskGraph \<Rightarrow> SchedulerOptions
    \<Rightarrow> string list list \<Rightarrow> SchedulerState \<Rightarrow> SchedulerState option" where
  "scheduleLevels outcome graph opts [] st = Some st"
| "scheduleLevels outcome graph opts (level # rest) st =
     (if \<not> continueOnError opts \<and> failedTasks st \<noteq> {} then
        scheduleLevels outcome graph opts rest
          (st\<lparr>results := results st @ map skippedResult level\<rparr>)
      else
        (case partitionLevel graph opts (failedTasks st) level ([], []) of
           None \<Rightarrow> None
         | Some (runnableTasks, skippedTasks) \<Rightarrow>
             (case runLevel outcome graph runnableTasks ([], completedTasks st, failedTasks st) of
                None \<Rightarrow> None
              | Some (levelResults, completed, failed) \<Rightarrow>
                  scheduleLevels outcome graph opts rest
                    \<lparr>results = results st @ map skippedResult skippedTasks @ levelResults,
                     completedTasks = completed, failedTasks = failed\<rparr>)))"

definition scheduleTasks :: "(ResolvedTask \<Rightarrow> TaskResult) \<Rightarrow> TaskGraph \<Rightarrow> SchedulerOptions
    \<Rightarrow> TaskResult list option" where
  "scheduleTasks outcome graph opts =
     (case pLimit (concurrency opts) of
        None \<Rightarrow> None
      | Some limit \<Rightarrow>
          map_option results
            (scheduleLevels outcome graph opts (parallelLevels graph)
               \<lparr>results = [], completedTasks = {}, failedTasks = {}\<rparr>))"

text \<open>
  The map \<open>tasks\<close> as the builders fill it: its keys are distinct, and the task stored
  under an id has that id (\<open>resolveTask\<close> makes it with \<open>createTaskId\<close>).
\<close>

definition wfTasks :: "(string \<times> ResolvedTask) list \<Rightarrow> bool" where
  "wfTasks ts \<longleftrightarrow> distinct (map fst ts) \<and> list_all (\<lambda>(tid, task). id' task = tid) ts"

section \<open>Dependencies, walks and levels\<close>

text \<open>
  The dependency relation of a dependency map: \<open>(n, d)\<close> is in it when \<open>d\<close> is listed among
  the dependencies of \<open>n\<close>. The functions above skip a dependency that is not a key of
  the map; \<open>edgeRel\<close> is the relation without those.
\<close>

definition depRel :: "DepMap \<Rightarrow> (string \<times> string) set" where
  "depRel nodes = {(n, d). \<exists>deps. map_of nodes n = Some deps \<and> d \<in> set deps}"

definition edgeRel :: "DepMap \<Rightarrow> (string \<times> string) set" where
  "edgeRel nodes = {(n, d). (n, d) \<in> depRel nodes \<and> mapHas nodes d}"

text \<open>
  A list of levels is valid from a set of completed nodes when no level is empty and
  every node of a level has all its dependencies that are keys of the map among the
  completed nodes and the nodes of earlier levels.
\<close>

fun validLevels :: "DepMap \<Rightarrow> string set \<Rightarrow> string list list \<Rightarrow> bool" where
  "validLevels nodes completed [] = True"
| "validLevels nodes completed (lv # rest) =
     (lv \<noteq> [] \<and> list_all (allDepsCompleted nodes completed) lv \<and>
      validLevels nodes (completed \<union> set lv) rest)"

text \<open>
  A closed walk in the dependency graph: at least two nodes, each followed by one of its
  dependencies, the last equal to the first.
\<close>

definition dependsOn :: "DepMap \<Rightarrow> string \<Rightarrow> string \<Rightarrow> bool" where
  "dependsOn nodes n d = (d \<in> set (getOr nodes n []))"

definition closedWalk :: "DepMap \<Rightarrow> string list \<Rightarrow> bool" where
  "closedWalk nodes c = (2 \<le> length c \<and> hd c = last c \<and> successively (dependsOn nodes) c)"

text \<open>The dependency relation of the tasks of a graph, as the scheduler reads it.\<close>

definition taskDeps :: "TaskGraph \<Rightarrow> (string \<times> string) set" where
  "taskDeps graph = {(t, d). \<exists>task. map_of (tasks graph) t = Some task \<and> d \<in> set (dependencies task)}"

section \<open>Invariants of the loops\<close>

text \<open>
  The edges of a dependency map as a list, each pair of a node and one occurrence of a
  dependency; \<open>esK\<close> keeps those whose dependency is a key. \<open>remainingDeps es r n\<close>
  counts the edges from \<open>n\<close> to nodes that are not yet in the result \<open>r\<close>.
\<close>

definition edges :: "DepMap \<Rightarrow> (string \<times> string) list" where
  "edges nodes = concat (map (\<lambda>(n, ds). map (Pair n) ds) nodes)"

definition esK :: "DepMap \<Rightarrow> (string \<times> string) list" where
  "esK nodes = filter (\<lambda>(n, d). mapHas nodes d) (edges nodes)"

definition remainingDeps :: "(string \<times> string) list \<Rightarrow> string list \<Rightarrow> string \<Rightarrow> nat" where
  "remainingDeps es r n = length (filter (\<lambda>(m, d). m = n \<and> d \<notin> set r) es)"

text \<open>
  The invariant of Kahn's loop: result and queue hold distinct keys; the in-degree of a
  key is the number of its edges to nodes outside the result; a key is in the result or
  in the queue exactly when that number is 0; and every node of the result comes after
  its dependencies.
\<close>

definition kahnInv :: "string set \<Rightarrow> (string \<times> string) list \<Rightarrow> (string \<times> int) list
    \<Rightarrow> string list \<Rightarrow> string list \<Rightarrow> bool" where
  "kahnInv K es i q r \<longleftrightarrow>
     distinct (r @ q) \<and> set (r @ q) \<subseteq> K \<and>
     (\<forall>n \<in> K. getOr i n 1 = int (remainingDeps es r n)) \<and>
     (\<forall>n \<in> K. n \<in> set (r @ q) \<longleftrightarrow> remainingDeps es r n = 0) \<and>
     (\<forall>j < length r. \<forall>d. (r ! j, d) \<in> set es \<longrightarrow> d \<in> set (take j r))"

text \<open>The list that the loop of \<open>topologicalSort\<close> produces, before its length is checked.\<close>

definition kahnResult :: "DepMap \<Rightarrow> string list" where
  "kahnResult nodes =
     (case topoBuild nodes of (inDegree, graph) \<Rightarrow>
        kahnLoop graph inDegree (map fst (filter (\<lambda>(nodeId, degree). degree = 0) inDegree)) [])"

text \<open>
  The invariants of the depth-first search. The recursion stack is the set of the nodes
  of the path, the path is a walk without repetition, and its nodes are visited. The
  nodes that are visited and no longer on the stack are closed under the edges and lie
  on no cycle. The postconditions say that a returned cycle is a closed walk, and that
  a search that returns \<open>null\<close> restores path and stack and keeps the invariants.
\<close>

definition stInv :: "DepMap \<Rightarrow> DfsState \<Rightarrow> bool" where
  "stInv nodes s \<longleftrightarrow>
     recursionStack s = set (path s) \<and> distinct (path s) \<and>
     successively (\<lambda>x y. (x, y) \<in> edgeRel nodes) (path s) \<and> set (path s) \<subseteq> visited s"

definition blackInv :: "DepMap \<Rightarrow> DfsState \<Rightarrow> bool" where
  "blackInv nodes s \<longleftrightarrow>
     (\<forall>n \<in> visited s - recursionStack s. \<forall>d. (n, d) \<in> edgeRel nodes \<longrightarrow> d \<in> visited s - recursionStack s) \<and>
     (\<forall>n \<in> visited s - recursionStack s. (n, n) \<notin> (edgeRel nodes)\<^sup>+)"

definition dfsPost :: "DepMap \<Rightarrow> DfsState \<Rightarrow> string list option \<times> DfsState \<Rightarrow> bool" where
  "dfsPost nodes s res =
     (case res of
        (Some c, s') \<Rightarrow> closedWalk nodes c
      | (None, s') \<Rightarrow> stInv nodes s' \<and> blackInv nodes s' \<and> path s' = path s \<and> visited s \<subseteq> visited s')"

definition dfsNodePost :: "DepMap \<Rightarrow> string \<Rightarrow> DfsState \<Rightarrow> string list option \<times> DfsState \<Rightarrow> bool" where
  "dfsNodePost nodes n s res \<longleftrightarrow>
     dfsPost nodes s res \<and> (fst res = None \<longrightarrow> n \<in> visited (snd res) - recursionStack (snd res))"

definition dfsDepsPost :: "DepMap \<Rightarrow> string list \<Rightarrow> DfsState \<Rightarrow> string list option \<times> DfsState \<Rightarrow> bool" where
  "dfsDepsPost nodes ds s res \<longleftrightarrow>
     dfsPost nodes s res \<and>
     (fst res = None \<longrightarrow> (\<forall>d \<in> set ds. mapHas nodes d \<longrightarrow> d \<in> visited (snd res) - recursionStack (snd res)))"

text \<open>
  For the scheduler: the ids of a list are keys of \<open>graph.tasks\<close> that store a task with
  that id; and in a list of results, a failed result for a task of one level forces
  every result for a task of a later level to be \<open>skipped\<close> with duration 0.
\<close>

definition tasksOk :: "TaskGraph \<Rightarrow> string list \<Rightarrow> bool" where
  "tasksOk graph tids \<longleftrightarrow> (\<forall>tid \<in> set tids. \<exists>task. map_of (tasks graph) tid = Some task \<and> id' task = tid)"

definition cascade :: "string list list \<Rightarrow> TaskResult list \<Rightarrow> bool" where
  "cascade todo new \<longleftrightarrow>
     (\<forall>i j x r. i < j \<and> j < length todo \<and> x \<in> set new \<and> r \<in> set new \<and>
        taskId x \<in> set (todo ! i) \<and> status x = Failed \<and> taskId r \<in> set (todo ! j)
        \<longrightarrow> status r = Skipped \<and> duration r = 0)"

section \<open>Example data\<close>

text \<open>A store with two cached hashes for one task, used in the examples below.\<close>

definition exampleEntry :: "string \<Rightarrow> RegistryEntry" where
  "exampleEntry h = \<lparr>inputHash = h, timestamp = 1, outputs = [], cachedFiles = []\<rparr>"

definition exampleStore :: CacheStore where
  "exampleStore =
     \<lparr>cacheDir = [''repo'', ''.cockpit'', ''.cache''],
      manifest = [''core:build'' \<mapsto> ''0123456789abcdef'', ''web:build'' \<mapsto> ''aaaaaaaaaaaaaaaa''],
      files = [getRegistryPath ''core:build'' \<mapsto>
                 RegistryJson [''0123456789abcdef'' \<mapsto> exampleEntry ''0123456789abcdef'',
                               ''ffffffffffffffff'' \<mapsto> exampleEntry ''ffffffffffffffff''],
               getHashDir ''core:build'' ''0123456789abcdef'' @ [''output.json''] \<mapsto>
                 ChunksJson [\<lparr>stream = Stdout, data = ''hi''\<rparr>] ]\<rparr>"

text \<open>
  An empty store, a workspace with one output file inside it, and a workspace whose
  output glob matches a file beside it, one level above.
\<close>

definition emptyStore :: CacheStore where
  "emptyStore = \<lparr>cacheDir = [''repo'', ''.cockpit'', ''.cache''], manifest = Map.empty, files = Map.empty\<rparr>"

definition distWorkspace :: Workspace where
  "distWorkspace = \<lparr>wsFiles = [''dist/app.js'' \<mapsto> ''js''], wsGlob = (\<lambda>ps. [''dist/app.js''])\<rparr>"

definition parentWorkspace :: Workspace where
  "parentWorkspace =
     \<lparr>wsFiles = [''../output.json'' \<mapsto> ''x''], wsGlob = (\<lambda>ps. [''../output.json''])\<rparr>"

text \<open>
  A platform for the examples. \<open>JSON.stringify\<close> is written out for strings that need no
  escaping: an object lists its properties in their order. The digest is a stand-in
  that returns 64 hexadecimal characters: a polynomial checksum of the message, written
  four times with 16 digits.
\<close>

definition jsonString :: "string \<Rightarrow> string" where
  "jsonString s = CHR 0x22 # s @ [CHR 0x22]"

fun commaSep :: "string list \<Rightarrow> string" where
  "commaSep [] = []"
| "commaSep [x] = x"
| "commaSep (x # y # ys) = x @ '','' @ commaSep (y # ys)"

definition jsonArray :: "string list \<Rightarrow> string" where
  "jsonArray xs = ''['' @ commaSep (map jsonString xs) @ '']''"

definition jsonRecord :: "(string \<times> string) list \<Rightarrow> string" where
  "jsonRecord e = ''{'' @ commaSep (map (\<lambda>(k, v). jsonString k @ '':'' @ jsonString v) e) @ ''}''"

definition jsonCommand :: "CommandSpec \<Rightarrow> string" where
  "jsonCommand c =
     (case c of
        ShellString s \<Rightarrow> jsonString s
      | ShellList xs \<Rightarrow> jsonArray xs
      | CommandObject cmd args cwd shell \<Rightarrow>
          ''{'' @ commaSep
            ([jsonString ''command'' @ '':'' @ jsonString cmd]
             @ (case args of None \<Rightarrow> [] | Some a \<Rightarrow> [jsonString ''args'' @ '':'' @ jsonArray a])
             @ (case cwd of None \<Rightarrow> [] | Some d \<Rightarrow> [jsonString ''cwd'' @ '':'' @ jsonString d])
             @ (case shell of None \<Rightarrow> []
                | Some b \<Rightarrow> [jsonString ''shell'' @ '':'' @ (if b then ''true'' else ''false'')]))
          @ ''}'')"

definition hexDigit :: "nat \<Rightarrow> char" where
  "hexDigit k = ''0123456789abcdef'' ! (k mod 16)"

fun hexDigits :: "nat \<Rightarrow> int \<Rightarrow> string" where
  "hexDigits 0 n = []"
| "hexDigits (Suc k) n = hexDigits k (n div 16) @ [hexDigit (nat (n mod 16))]"

definition checksum :: "string \<Rightarrow> int" where
  "checksum m = foldl (\<lambda>acc c. (acc * 31 + of_char c) mod 18446744073709551616) 7 m"

definition exampleDigest :: "string \<Rightarrow> string" where
  "exampleDigest m = (let d = hexDigits 16 (checksum m) in d @ d @ d @ d)"

definition examplePlatform :: Platform where
  "examplePlatform =
     \<lparr>sha256hex = exampleDigest,
      stringifyCommand = jsonCommand,
      stringifyArgs = jsonArray,
      stringifyEnv = jsonRecord,
      toISOString = (\<lambda>t. natToString (nat t))\<rparr>"

text \<open>
  Two checkouts of one workspace at different places, with the files listed in a
  different order.
\<close>

definition exampleFs1 :: FileSystem where
  "exampleFs1 =
     \<lparr>fg = (\<lambda>patterns cwd. [''src/b.ts'', ''src/a.ts'']),
      statSync = map_of [(''/w1/src/a.ts'', \<lparr>mtime = 1000, statSize = 12\<rparr>),
                         (''/w1/src/b.ts'', \<lparr>mtime = 2000, statSize = 40\<rparr>)]\<rparr>"

definition exampleFs2 :: FileSystem where
  "exampleFs2 =
     \<lparr>fg = (\<lambda>patterns cwd. [''src/a.ts'', ''src/b.ts'']),
      statSync = map_of [(''/w2/src/a.ts'', \<lparr>mtime = 1000, statSize = 12\<rparr>),
                         (''/w2/src/b.ts'', \<lparr>mtime = 2000, statSize = 40\<rparr>)]\<rparr>"

definition exampleTask :: "string \<Rightarrow> string list option \<Rightarrow> ResolvedTask" where
  "exampleTask tid ins =
     \<lparr>id' = tid,
      definition' = \<lparr>command = ShellString ''tsc'', env = Some [(''CI'', ''1'')], inputs = ins,
                     allowFailure = None, timeout = None\<rparr>,
      dependencies = []\<rparr>"

text \<open>
  One task written twice, with the same two environment variables in the one order and
  in the other.
\<close>

definition exampleEnv1 :: "(string \<times> string) list" where
  "exampleEnv1 = [(''CI'', ''1''), (''NODE_ENV'', ''test'')]"

definition exampleEnv2 :: "(string \<times> string) list" where
  "exampleEnv2 = [(''NODE_ENV'', ''test''), (''CI'', ''1'')]"

definition envTask :: "(string \<times> string) list \<Rightarrow> ResolvedTask" where
  "envTask e =
     \<lparr>id' = ''core:build'',
      definition' = \<lparr>command = ShellString ''tsc'', env = Some e, inputs = Some [''src/**''],
                     allowFailure = None, timeout = None\<rparr>,
      dependencies = []\<rparr>"

text \<open>
  Three build tasks, \<open>web\<close> depending on \<open>core\<close> and \<open>utils\<close>, and \<open>utils\<close> on \<open>core\<close>, in
  the order in which the breadth-first traversal from \<open>web:build\<close> inserts them; and two
  tasks that depend on each other.
\<close>

definition exampleDeps :: DepMap where
  "exampleDeps = [(''web:build'', [''core:build'', ''utils:build'']),
                  (''core:build'', []),
                  (''utils:build'', [''core:build''])]"

definition cyclicDeps :: DepMap where
  "cyclicDeps = [(''a:build'', [''b:build'']), (''b:build'', [''a:build''])]"

definition buildTask :: "string \<Rightarrow> string list \<Rightarrow> ResolvedTask" where
  "buildTask tid deps =
     \<lparr>id' = tid,
      definition' = \<lparr>command = ShellString ''tsc'', env = None, inputs = None,
                     allowFailure = None, timeout = None\<rparr>,
      dependencies = deps\<rparr>"

definition exampleTasks :: "(string \<times> ResolvedTask) list" where
  "exampleTasks = [(''web:build'', buildTask ''web:build'' [''core:build'', ''utils:build'']),
                   (''core:build'', buildTask ''core:build'' []),
                   (''utils:build'', buildTask ''utils:build'' [''core:build''])]"

definition exampleGraph :: TaskGraph where
  "exampleGraph =
     \<lparr>tasks = exampleTasks,
      executionOrder = [''core:build'', ''utils:build'', ''web:build''],
      parallelLevels = [ [''core:build''], [''utils:build''], [''web:build''] ],
      rootTasks = [''web:build'']\<rparr>"

text \<open>A run in which \<open>core:build\<close> fails and every other task would succeed.\<close>

definition coreFails :: "ResolvedTask \<Rightarrow> TaskResult" where
  "coreFails task =
     \<lparr>taskId = id' task,
      status = (if id' task = ''core:build'' then Failed else Success),
      duration = 7, output' = None,
      error = (if id' task = ''core:build''
               then Some (TaskExecutionError (id' task) (Some 1) '''') else None)\<rparr>"

definition stopOnError :: SchedulerOptions where
  "stopOnError = \<lparr>concurrency = 4, continueOnError = False\<rparr>"

definition exampleResults :: "TaskResult list" where
  "exampleResults =
     [\<lparr>taskId = ''core:build'', status = Failed, duration = 7, output' = None,
       error = Some (TaskExecutionError ''core:build'' (Some 1) '''')\<rparr>,
      skippedResult ''utils:build'',
      skippedResult ''web:build'']"

section \<open>Round trip of task identifiers\<close>

lemma indexOf_append_first:
  "c \<notin> set xs \<Longrightarrow> indexOf c (xs @ c # ys) = Some (length xs)"
  by (induction xs) auto

text \<open>
  C8, as stated: for every pair \<open>(ws, name)\<close>, parsing the identifier made from the pair
  gives the pair back. This fails when the workspace id itself contains a colon: the
  identifier is split at its first colon, which then lies inside the workspace id.
\<close>

theorem parseTaskId_createTaskId_colon_in_workspace:
  "parseTaskId (createTaskId ''a:b'' ''c'') \<noteq> (''a:b'', ''c'')"
  by (simp add: parseTaskId_def createTaskId_def)

text \<open>
  C8, amended: for every pair \<open>(ws, name)\<close> whose workspace id contains no colon (the
  task name may contain any number of them), \<open>parseTaskId (createTaskId ws name)\<close>
  returns exactly \<open>(ws, name)\<close>.
\<close>

theorem parseTaskId_createTaskId:
  "CHR '':'' \<notin> set ws \<Longrightarrow> parseTaskId (createTaskId ws name) = (ws, name)"
  by (simp add: parseTaskId_def createTaskId_def indexOf_append_first)

theorem parseTaskId_createTaskId_witness:
  "CHR '':'' \<notin> set ''core'' \<and> parseTaskId (createTaskId ''core'' ''lint:fix'') = (''core'', ''lint:fix'')"
  using parseTaskId_createTaskId [of "''core''" "''lint:fix''"] by simp

section \<open>The runner's interpretation of a process result\<close>

text \<open>
  C7: the runner interprets a process result in this order. If \<open>killed\<close> is true the
  result is \<open>failed\<close> with a \<open>TaskTimeout\<close> error; otherwise, if the exit code is not 0
  and the definition allows failure, the result is \<open>success\<close>; otherwise, if the exit
  code is not 0, the result is \<open>failed\<close> with a \<open>TaskExecution\<close> error carrying the exit
  code; and if the exit code is 0 the result is \<open>success\<close>.
\<close>

theorem handleProcessResult_cases:
  "(killed r \<longrightarrow>
      status (handleProcessResult t r s n) = Failed \<and>
      (\<exists>ms. error (handleProcessResult t r s n) = Some (TaskTimeoutError (id' t) ms))) \<and>
   (\<not> killed r \<and> exitCode r \<noteq> Some 0 \<and> allowFailure (definition' t) = Some True \<longrightarrow>
      status (handleProcessResult t r s n) = Success \<and>
      error (handleProcessResult t r s n) = None) \<and>
   (\<not> killed r \<and> exitCode r \<noteq> Some 0 \<and> allowFailure (definition' t) \<noteq> Some True \<longrightarrow>
      status (handleProcessResult t r s n) = Failed \<and>
      error (handleProcessResult t r s n) = Some (TaskExecutionError (id' t) (exitCode r) (stderr r))) \<and>
   (\<not> killed r \<and> exitCode r = Some 0 \<longrightarrow>
      status (handleProcessResult t r s n) = Success \<and>
      error (handleProcessResult t r s n) = None)"
  by (simp add: handleProcessResult_def Let_def)

theorem handleProcessResult_cases_witness:
  "status (handleProcessResult
      \<lparr>id' = ''core:build'', definition' = \<lparr>command = ShellString ''make'', env = None, inputs = None, allowFailure = None, timeout = Some 50\<rparr>, dependencies = []\<rparr>
      \<lparr>exitCode = None, stdout = '''', stderr = '''', killed = True\<rparr> 0 60) = Failed
   \<and> status (handleProcessResult
      \<lparr>id' = ''core:build'', definition' = \<lparr>command = ShellString ''make'', env = None, inputs = None, allowFailure = Some True, timeout = None\<rparr>, dependencies = []\<rparr>
      \<lparr>exitCode = Some 2, stdout = '''', stderr = '''', killed = False\<rparr> 0 60) = Success
   \<and> error (handleProcessResult
      \<lparr>id' = ''core:build'', definition' = \<lparr>command = ShellString ''make'', env = None, inputs = None, allowFailure = None, timeout = None\<rparr>, dependencies = []\<rparr>
      \<lparr>exitCode = Some 2, stdout = '''', stderr = ''boom'', killed = False\<rparr> 0 60)
       = Some (TaskExecutionError ''core:build'' (Some 2) ''boom'')
   \<and> status (handleProcessResult
      \<lparr>id' = ''core:build'', definition' = \<lparr>command = ShellString ''make'', env = None, inputs = None, allowFailure = None, timeout = None\<rparr>, dependencies = []\<rparr>
      \<lparr>exitCode = Some 0, stdout = ''hi'', stderr = '''', killed = False\<rparr> 0 60) = Success"
  using
    handleProcessResult_cases [of "\<lparr>exitCode = None, stdout = '''', stderr = '''', killed = True\<rparr>"
      "\<lparr>id' = ''core:build'', definition' = \<lparr>command = ShellString ''make'', env = None, inputs = None, allowFailure = None, timeout = Some 50\<rparr>, dependencies = []\<rparr>" 0 60]
    handleProcessResult_cases [of "\<lparr>exitCode = Some 2, stdout = '''', stderr = '''', killed = False\<rparr>"
      "\<lparr>id' = ''core:build'', definition' = \<lparr>command = ShellString ''make'', env = None, inputs = None, allowFailure = Some True, timeout = None\<rparr>, dependencies = []\<rparr>" 0 60]
    handleProcessResult_cases [of "\<lparr>exitCode = Some 2, stdout = '''', stderr = ''boom'', killed = False\<rparr>"
      "\<lparr>id' = ''core:build'', definition' = \<lparr>command = ShellString ''make'', env = None, inputs = None, allowFailure = None, timeout = None\<rparr>, dependencies = []\<rparr>" 0 60]
    handleProcessResult_cases [of "\<lparr>exitCode = Some 0, stdout = ''hi'', stderr = '''', killed = False\<rparr>"
      "\<lparr>id' = ''core:build'', definition' = \<lparr>command = ShellString ''make'', env = None, inputs = None, allowFailure = None, timeout = None\<rparr>, dependencies = []\<rparr>" 0 60]
  by simp

section \<open>Replay of captured output\<close>

lemma copyOutputFiles_other:
  "\<forall>file \<in> set fs. destPath cdir outputsDir file \<noteq> Some p
   \<Longrightarrow> snd (copyOutputFiles cdir outputsDir ws fs (cached, d)) p = d p"
  by (induction fs arbitrary: cached d) (auto simp: writeFileSync_def split: option.splits)

lemma saveOutputFiles_other:
  "\<forall>file \<in> set (wsGlob ws pats). destPath cdir outputsDir file \<noteq> Some p
   \<Longrightarrow> snd (saveOutputFiles cdir outputsDir pats ws d) p = d p"
  by (simp add: saveOutputFiles_def copyOutputFiles_other)

text \<open>
  A file inside the workspace is copied below the outputs directory, so not onto
  \<open>output.json\<close>, which lies beside that directory, whatever the segments of the path of
  the hash directory are.
\<close>

lemma normalizeFrom_inside:
  "insideDir (length q) segs \<Longrightarrow> normalizeFrom (dir @ q) segs = dir @ normalizeFrom q segs"
proof (induction segs arbitrary: q)
  case Nil
  then show ?case by simp
next
  case (Cons seg segs)
  show ?case
  proof (cases "seg = [] \<or> seg = ''.''")
    case True
    then show ?thesis using Cons by auto
  next
    case skip: False
    show ?thesis
    proof (cases "seg = ''..''")
      case True
      with Cons.prems have q: "q \<noteq> []" and i: "insideDir (length (butlast q)) segs" by auto
      from Cons.IH[OF i] q show ?thesis using True by (simp add: butlast_append)
    next
      case False
      with skip Cons.prems have "insideDir (length (q @ [seg])) segs" by simp
      from Cons.IH[OF this] show ?thesis using False skip by simp
    qed
  qed
qed

lemma destPath_inside:
  assumes "insideWorkspace file"
  shows "destPath cdir outputsDir file = Some (outputsDir @ normalizeFrom [] (splitPath file))"
proof -
  have "insideDir (length ([] :: path)) (splitPath file)"
    using assms by (simp add: insideWorkspace_def)
  from normalizeFrom_inside[OF this, of "cdir @ outputsDir"]
  show ?thesis by (simp add: destPath_def joinPath_def)
qed

lemma destPath_inside_not_output:
  "insideWorkspace file
   \<Longrightarrow> destPath cdir (hashDir @ [''outputs'']) file \<noteq> Some (hashDir @ [''output.json''])"
  by (simp add: destPath_inside)

text \<open>
  C5, as stated: for every chunk list \<open>C\<close>, the empty list included, \<open>getOutputChunks\<close>
  after \<open>store\<close> returns exactly \<open>C\<close>. \<open>set\<close> writes \<open>output.json\<close> only when the list has
  at least one chunk, after it has removed the hash directory: for the empty list there
  is no file, and \<open>getOutputChunks\<close> returns \<open>undefined\<close>, not the empty list. And \<open>set\<close>
  copies the output files after it has written \<open>output.json\<close>: when an output glob matches
  the file \<open>../output.json\<close> beside the workspace, its copy goes to
  \<open>join(outputsDir, "../output.json")\<close>, which is the \<open>output.json\<close> of the entry, and
  \<open>getOutputChunks\<close> does not return the one chunk that was stored.
\<close>

theorem set_getOutputChunks_not_returned:
  "getOutputChunks
     (set' distWorkspace 0 ''core:build'' ''0123456789abcdef'' [] (Some []) emptyStore)
     ''core:build'' ''0123456789abcdef'' = None
   \<and> \<not> insideWorkspace ''../output.json''
   \<and> destPath (cacheDir emptyStore) (getHashDir ''core:build'' ''0123456789abcdef'' @ [''outputs''])
        ''../output.json''
      = Some (getHashDir ''core:build'' ''0123456789abcdef'' @ [''output.json''])
   \<and> getOutputChunks
     (set' parentWorkspace 0 ''core:build'' ''0123456789abcdef'' [''../output.json'']
        (Some [\<lparr>stream = Stdout, data = ''hi''\<rparr>]) emptyStore)
     ''core:build'' ''0123456789abcdef'' = None"
  by (simp add: getOutputChunks_def set'_def Let_def saveOutputFiles_def saveManifest_def
      saveRegistry_def writeFileSync_def rmSync_def getHashDir_def getTaskDir_def manifestPath_def
      getRegistryPath_def loadRegistry_def destPath_def joinPath_def taskIdToDir_def
      emptyStore_def distWorkspace_def parentWorkspace_def insideWorkspace_def)

text \<open>
  C5, amended: for every chunk list \<open>C\<close> with at least one chunk, after
  \<open>store({taskId, inputHash, ..., outputChunks = C})\<close> in which every file matched by the
  output globs lies inside the workspace, a call to \<open>getOutputChunks(taskId, inputHash)\<close>
  returns exactly the chunk sequence \<open>C\<close>, with the same ordering and the same stream
  tags.
\<close>

theorem set_getOutputChunks:
  assumes "chunks \<noteq> []"
    and "\<forall>file \<in> set (wsGlob ws outs). insideWorkspace file"
  shows "getOutputChunks (set' ws now tid h outs (Some chunks) s) tid h = Some chunks"
proof -
  let ?hd = "getHashDir tid h"
  let ?p = "?hd @ [''output.json'']"
  let ?d2 = "writeFileSync ?p (ChunksJson chunks) (rmSync ?hd (files s))"
  obtain cached d3
    where sv: "saveOutputFiles (cacheDir s) (?hd @ [''outputs'']) outs ws ?d2 = (cached, d3)"
    by (cases "saveOutputFiles (cacheDir s) (?hd @ [''outputs'']) outs ws ?d2")
  have "\<forall>file \<in> set (wsGlob ws outs).
      destPath (cacheDir s) (?hd @ [''outputs'']) file \<noteq> Some ?p"
    using assms(2) by (simp add: destPath_inside_not_output)
  from saveOutputFiles_other[OF this, of ?d2] sv
  have d3: "d3 ?p = Some (ChunksJson chunks)" by (simp add: writeFileSync_def)
  have ne1: "getRegistryPath tid \<noteq> ?p" by (simp add: getRegistryPath_def getHashDir_def)
  have ne2: "manifestPath \<noteq> ?p" by (simp add: manifestPath_def getHashDir_def getTaskDir_def)
  show ?thesis using assms(1) sv d3 ne1 ne2
    by (simp add: getOutputChunks_def set'_def Let_def saveManifest_def saveRegistry_def writeFileSync_def)
qed

theorem set_getOutputChunks_witness:
  "[\<lparr>stream = Stdout, data = ''hi''\<rparr>, \<lparr>stream = Stderr, data = ''warn''\<rparr>] \<noteq> [] \<and>
   wsGlob distWorkspace [''dist/**''] = [''dist/app.js''] \<and> insideWorkspace ''dist/app.js'' \<and>
   getOutputChunks
     (set' distWorkspace 0 ''core:build'' ''0123456789abcdef'' [''dist/**'']
        (Some [\<lparr>stream = Stdout, data = ''hi''\<rparr>, \<lparr>stream = Stderr, data = ''warn''\<rparr>])
        emptyStore)
     ''core:build'' ''0123456789abcdef''
   = Some [\<lparr>stream = Stdout, data = ''hi''\<rparr>, \<lparr>stream = Stderr, data = ''warn''\<rparr>]"
proof -
  have g: "wsGlob distWorkspace [''dist/**''] = [''dist/app.js'']"
    by (simp add: distWorkspace_def)
  have d: "insideWorkspace ''dist/app.js''"
    by (simp add: insideWorkspace_def)
  show ?thesis
    using set_getOutputChunks [where chunks = "[\<lparr>stream = Stdout, data = ''hi''\<rparr>, \<lparr>stream = Stderr, data = ''warn''\<rparr>]"
        and ws = distWorkspace and outs = "[''dist/**'']" and s = emptyStore
        and tid = "''core:build''" and h = "''0123456789abcdef''" and now = 0] g d
    by simp
qed

section \<open>Invalidation of one hash\<close>

lemma isInputHash_nonempty: "isInputHash h \<Longrightarrow> h \<noteq> []"
  by (auto simp: isInputHash_def)

lemma isInputHash_not_registry: "isInputHash h \<Longrightarrow> h \<noteq> ''registry.json''"
  by (auto simp: isInputHash_def)

lemma registry_outside_hashDir:
  "isInputHash h \<Longrightarrow> \<not> prefix (getHashDir tid h) (getRegistryPath tid)"
  by (auto simp: getHashDir_def getRegistryPath_def dest: isInputHash_not_registry)

text \<open>
  C9: \<open>invalidate(taskId, h)\<close> with an explicit input hash \<open>h\<close> removes only the registry
  entry for \<open>h\<close> and that hash's subtree. The entry for \<open>h\<close> is gone and every other
  registry entry of the task is unchanged; every file below the hash directory is gone
  and every file that is neither below it nor the task's registry nor the manifest file
  is unchanged; every manifest entry of every other task is unchanged; and the manifest
  entry of the task is cleared if and only if it was \<open>h\<close>.
\<close>

theorem invalidate_hash_frame:
  assumes "isInputHash h"
  shows "loadRegistry (files (invalidate tid (Some h) s)) tid h = None \<and>
         (\<forall>h'. h' \<noteq> h \<longrightarrow>
            loadRegistry (files (invalidate tid (Some h) s)) tid h' = loadRegistry (files s) tid h') \<and>
         (\<forall>p. prefix (getHashDir tid h) p \<longrightarrow> files (invalidate tid (Some h) s) p = None) \<and>
         (\<forall>p. \<not> prefix (getHashDir tid h) p \<and> p \<noteq> getRegistryPath tid \<and> p \<noteq> manifestPath \<longrightarrow>
            files (invalidate tid (Some h) s) p = files s p) \<and>
         (\<forall>tid'. tid' \<noteq> tid \<longrightarrow> manifest (invalidate tid (Some h) s) tid' = manifest s tid') \<and>
         manifest (invalidate tid (Some h) s) tid =
           (if manifest s tid = Some h then None else manifest s tid)"
proof -
  have ne: "h \<noteq> []" using assms by (rule isInputHash_nonempty)
  have np: "\<not> prefix (getHashDir tid h) (getRegistryPath tid)"
    using assms by (rule registry_outside_hashDir)
  have mp: "\<not> prefix (getHashDir tid h) manifestPath" "manifestPath \<noteq> getRegistryPath tid"
    by (auto simp: getHashDir_def manifestPath_def getTaskDir_def getRegistryPath_def)
  show ?thesis using ne np mp
    by (auto simp: invalidate_def Let_def saveManifest_def saveRegistry_def writeFileSync_def
        rmSync_def loadRegistry_def)
qed

theorem invalidate_hash_frame_witness:
  "isInputHash ''0123456789abcdef'' \<and>
   loadRegistry (files (invalidate ''core:build'' (Some ''0123456789abcdef'') exampleStore))
     ''core:build'' ''0123456789abcdef'' = None \<and>
   loadRegistry (files (invalidate ''core:build'' (Some ''0123456789abcdef'') exampleStore))
     ''core:build'' ''ffffffffffffffff'' = Some (exampleEntry ''ffffffffffffffff'') \<and>
   files (invalidate ''core:build'' (Some ''0123456789abcdef'') exampleStore)
     (getHashDir ''core:build'' ''0123456789abcdef'' @ [''output.json'']) = None \<and>
   manifest (invalidate ''core:build'' (Some ''0123456789abcdef'') exampleStore) ''web:build''
     = Some ''aaaaaaaaaaaaaaaa'' \<and>
   manifest (invalidate ''core:build'' (Some ''0123456789abcdef'') exampleStore) ''core:build'' = None"
proof -
  have h: "isInputHash ''0123456789abcdef''"
    by (simp add: isInputHash_def isHexChar_def)
  have r: "loadRegistry (files exampleStore) ''core:build'' ''ffffffffffffffff''
      = Some (exampleEntry ''ffffffffffffffff'')"
    by (simp add: exampleStore_def loadRegistry_def getRegistryPath_def getHashDir_def getTaskDir_def)
  have m: "manifest exampleStore ''web:build'' = Some ''aaaaaaaaaaaaaaaa''"
    "manifest exampleStore ''core:build'' = Some ''0123456789abcdef''"
    by (simp_all add: exampleStore_def)
  show ?thesis
    using invalidate_hash_frame [OF h, of "''core:build''" exampleStore] h r m by simp
qed

section \<open>Outputs on disk for a hash that was never stored\<close>

text \<open>
  C10: \<open>hasOutputsOnDisk(taskId, inputHash, workspacePath)\<close> returns true whenever the
  task's registry has no entry for \<open>inputHash\<close>, just as it does for an entry whose
  \<open>cachedFiles\<close> list is empty: the answer does not tell a hash that was never stored
  from a stored entry without files.
\<close>

theorem hasOutputsOnDisk_uncached:
  "(loadRegistry (files s) tid h = None \<longrightarrow> hasOutputsOnDisk s ws tid h) \<and>
   (\<forall>e. loadRegistry (files s) tid h = Some e \<and> cachedFiles e = [] \<longrightarrow> hasOutputsOnDisk s ws tid h)"
  by (simp add: hasOutputsOnDisk_def)

theorem hasOutputsOnDisk_uncached_witness:
  "loadRegistry (files exampleStore) ''core:build'' ''1111111111111111'' = None \<and>
   hasOutputsOnDisk exampleStore \<lparr>wsFiles = Map.empty, wsGlob = (\<lambda>ps. [])\<rparr>
     ''core:build'' ''1111111111111111'' \<and>
   loadRegistry (files exampleStore) ''core:build'' ''ffffffffffffffff''
     = Some (exampleEntry ''ffffffffffffffff'') \<and>
   cachedFiles (exampleEntry ''ffffffffffffffff'') = [] \<and>
   hasOutputsOnDisk exampleStore \<lparr>wsFiles = Map.empty, wsGlob = (\<lambda>ps. [])\<rparr>
     ''core:build'' ''ffffffffffffffff''"
proof -
  have a: "loadRegistry (files exampleStore) ''core:build'' ''1111111111111111'' = None"
    by (simp add: exampleStore_def loadRegistry_def getRegistryPath_def getHashDir_def getTaskDir_def)
  have b: "loadRegistry (files exampleStore) ''core:build'' ''ffffffffffffffff''
      = Some (exampleEntry ''ffffffffffffffff'')"
    by (simp add: exampleStore_def loadRegistry_def getRegistryPath_def getHashDir_def getTaskDir_def)
  have c: "cachedFiles (exampleEntry ''ffffffffffffffff'') = []"
    by (simp add: exampleEntry_def)
  show ?thesis
    using a b c
      hasOutputsOnDisk_uncached [of exampleStore "''core:build''" "''1111111111111111''"
        "\<lparr>wsFiles = Map.empty, wsGlob = (\<lambda>ps. [])\<rparr>"]
      hasOutputsOnDisk_uncached [of exampleStore "''core:build''" "''ffffffffffffffff''"
        "\<lparr>wsFiles = Map.empty, wsGlob = (\<lambda>ps. [])\<rparr>"]
    by simp
qed

section \<open>Determinism of the input hash\<close>

lemma hashTaskInputs_patterns:
  "hashTaskInputs P F task wp a =
     take 16 (sha256hex P
       ((stringifyCommand P (command (definition' task))
         @ (case a of None \<Rightarrow> [] | Some args \<Rightarrow> if args = [] then [] else stringifyArgs P args))
         @ (case env (definition' task) of None \<Rightarrow> [] | Some e \<Rightarrow> stringifyEnv P e)
         @ hashFiles P F (inputPatterns task) wp))"
  by (simp add: hashTaskInputs_def inputPatterns_def Let_def split: option.splits)

lemma foldl_hashFile_cong:
  "\<forall>f \<in> set fs. statSync F1 (b1 @ ''/'' @ f) = statSync F2 (b2 @ ''/'' @ f)
   \<Longrightarrow> foldl (hashFile P F1 b1) acc fs = foldl (hashFile P F2 b2) acc fs"
  by (induction fs arbitrary: acc) (simp_all add: hashFile_def)

lemma hashFiles_same_set:
  assumes "distinct (fg F1 p1 b1)" "distinct (fg F2 p2 b2)"
    and "set (fg F1 p1 b1) = set (fg F2 p2 b2)"
    and "\<forall>f \<in> set (fg F1 p1 b1). statSync F1 (b1 @ ''/'' @ f) = statSync F2 (b2 @ ''/'' @ f)"
  shows "hashFiles P F1 p1 b1 = hashFiles P F2 p2 b2"
proof -
  have "sort (fg F1 p1 b1) = sort (fg F2 p2 b2)"
    using assms(1-3) by (intro sorted_distinct_set_unique) simp_all
  moreover have "foldl (hashFile P F1 b1) [] (sort (fg F1 p1 b1))
      = foldl (hashFile P F2 b2) [] (sort (fg F1 p1 b1))"
    using assms(4) by (intro foldl_hashFile_cong) simp
  ultimately show ?thesis by (simp add: hashFiles_def)
qed

lemma exampleEnv_same_map: "map_of exampleEnv1 = map_of exampleEnv2"
  by (auto simp: exampleEnv1_def exampleEnv2_def fun_eq_iff)

lemma exampleEnv_hashes:
  "hashTaskInputs examplePlatform exampleFs1 (envTask exampleEnv1) ''/w1'' None = ''0c940883fe6fbdf0''"
  "hashTaskInputs examplePlatform exampleFs1 (envTask exampleEnv2) ''/w1'' None = ''fdc8fbc1cdbc4b48''"
  by code_simp+

text \<open>
  C6, as stated: two invocations on tasks with the same command, the same env map, the
  same extra arguments and the same input files produce the same hash. The env record
  enters the digest as \<open>JSON.stringify(task.definition.env)\<close>, which writes the properties
  in their order in the object: two records that are the same map, with the same two
  variables written in the one order and in the other, give two different strings, and
  with a digest that tells the two strings apart, two different hashes.
\<close>

theorem hashTaskInputs_env_order:
  "map_of exampleEnv1 = map_of exampleEnv2 \<and>
   stringifyEnv examplePlatform exampleEnv1 \<noteq> stringifyEnv examplePlatform exampleEnv2 \<and>
   hashTaskInputs examplePlatform exampleFs1 (envTask exampleEnv1) ''/w1'' None
     \<noteq> hashTaskInputs examplePlatform exampleFs1 (envTask exampleEnv2) ''/w1'' None"
proof -
  have "stringifyEnv examplePlatform exampleEnv1 \<noteq> stringifyEnv examplePlatform exampleEnv2"
    by (simp add: examplePlatform_def jsonRecord_def jsonString_def exampleEnv1_def exampleEnv2_def)
  then show ?thesis using exampleEnv_same_map by (simp add: exampleEnv_hashes)
qed

text \<open>
  C6, amended: \<open>hashTaskInputs\<close> is deterministic. Take two invocations, on tasks \<open>t1\<close>
  and \<open>t2\<close> in workspaces at \<open>w1\<close> and \<open>w2\<close>, over two states of the file system. If the
  tasks have the same command and the same env record with its properties in the same
  order, the extra arguments are the same, and the input patterns expand to the same set
  of relative paths (the glob lists each file once), each with the same modification
  time and size on both sides, then both invocations return the same hash; and the hash
  has 16 hexadecimal characters, the SHA-256 digest having 64.
\<close>

theorem hashTaskInputs_deterministic:
  assumes "command (definition' t1) = command (definition' t2)"
    and "env (definition' t1) = env (definition' t2)"
    and "a1 = a2"
    and "distinct (fg F1 (inputPatterns t1) w1)" and "distinct (fg F2 (inputPatterns t2) w2)"
    and "set (fg F1 (inputPatterns t1) w1) = set (fg F2 (inputPatterns t2) w2)"
    and "\<forall>f \<in> set (fg F1 (inputPatterns t1) w1).
           statSync F1 (w1 @ ''/'' @ f) = statSync F2 (w2 @ ''/'' @ f)"
    and "\<forall>m. length (sha256hex P m) = 64 \<and> list_all isHexChar (sha256hex P m)"
  shows "hashTaskInputs P F1 t1 w1 a1 = hashTaskInputs P F2 t2 w2 a2 \<and>
         isInputHash (hashTaskInputs P F1 t1 w1 a1)"
proof -
  have "hashFiles P F1 (inputPatterns t1) w1 = hashFiles P F2 (inputPatterns t2) w2"
    using assms(4-7) by (rule hashFiles_same_set)
  then have eq: "hashTaskInputs P F1 t1 w1 a1 = hashTaskInputs P F2 t2 w2 a2"
    using assms(1-3) by (simp add: hashTaskInputs_patterns)
  have "isInputHash (take 16 (sha256hex P m))" for m
    using assms(8) by (auto simp: isInputHash_def list_all_iff dest: in_set_takeD)
  then have "isInputHash (hashTaskInputs P F1 t1 w1 a1)"
    by (simp add: hashTaskInputs_patterns)
  with eq show ?thesis by simp
qed

lemma hexDigit_hex: "isHexChar (hexDigit k)"
  unfolding isHexChar_def hexDigit_def by (intro nth_mem) simp

lemma hexDigits_length: "length (hexDigits k n) = k"
  by (induction k arbitrary: n) simp_all

lemma hexDigits_hex: "list_all isHexChar (hexDigits k n)"
  by (induction k arbitrary: n) (simp_all add: hexDigit_hex)

lemma examplePlatform_digest:
  "\<forall>m. length (sha256hex examplePlatform m) = 64 \<and> list_all isHexChar (sha256hex examplePlatform m)"
  by (simp add: examplePlatform_def exampleDigest_def Let_def hexDigits_length hexDigits_hex)

theorem hashTaskInputs_deterministic_witness:
  "hashTaskInputs examplePlatform exampleFs1 (exampleTask ''core:build'' (Some [''src/**''])) ''/w1'' None
     = hashTaskInputs examplePlatform exampleFs2 (exampleTask ''core:check'' None) ''/w2'' None \<and>
   isInputHash (hashTaskInputs examplePlatform exampleFs1
     (exampleTask ''core:build'' (Some [''src/**''])) ''/w1'' None)"
proof -
  have 1: "distinct (fg exampleFs1 (inputPatterns (exampleTask ''core:build'' (Some [''src/**'']))) ''/w1'')"
    and 2: "distinct (fg exampleFs2 (inputPatterns (exampleTask ''core:check'' None)) ''/w2'')"
    and 3: "set (fg exampleFs1 (inputPatterns (exampleTask ''core:build'' (Some [''src/**'']))) ''/w1'')
          = set (fg exampleFs2 (inputPatterns (exampleTask ''core:check'' None)) ''/w2'')"
    and 4: "\<forall>f \<in> set (fg exampleFs1 (inputPatterns (exampleTask ''core:build'' (Some [''src/**'']))) ''/w1'').
           statSync exampleFs1 (''/w1'' @ ''/'' @ f) = statSync exampleFs2 (''/w2'' @ ''/'' @ f)"
    by (auto simp: exampleFs1_def exampleFs2_def)
  show ?thesis
    by (rule hashTaskInputs_deterministic [OF _ _ refl 1 2 3 4 examplePlatform_digest])
       (simp_all add: exampleTask_def)
qed

section \<open>Parallel levels\<close>

lemma mapHas_iff: "mapHas m k \<longleftrightarrow> k \<in> fst ` set m"
  by (simp add: mapHas_def map_of_eq_None_iff)

lemma finite_edgeRel: "finite (edgeRel nodes)"
proof -
  have "edgeRel nodes \<subseteq> (fst ` set nodes) \<times> (fst ` set nodes)"
    by (auto simp: edgeRel_def depRel_def mapHas_iff dest!: map_of_SomeD) force
  then show ?thesis by (rule finite_subset) simp
qed

lemma allDepsCompleted_iff:
  "allDepsCompleted nodes completed n \<longleftrightarrow> (\<forall>d. (n, d) \<in> edgeRel nodes \<longrightarrow> d \<in> completed)"
  by (cases "map_of nodes n")
     (auto simp: allDepsCompleted_def edgeRel_def depRel_def getOr_def list_all_iff)

lemma levelsLoop_Inr:
  "levelsLoop nodes levels completed remaining = Inr L \<Longrightarrow>
   \<exists>new. L = levels @ new \<and> validLevels nodes completed new \<and> mset (concat new) = mset remaining"
proof (induction nodes levels completed remaining rule: levelsLoop.induct)
  case (1 nodes levels completed remaining)
  let ?cur = "filter (allDepsCompleted nodes completed) remaining"
  show ?case
  proof (cases "remaining = []")
    case True
    with "1.prems" show ?thesis by (simp add: levelsLoop.simps)
  next
    case False
    show ?thesis
    proof (cases "?cur = []")
      case True
      with False "1.prems" show ?thesis by (simp add: levelsLoop.simps)
    next
      case cur: False
      have rec: "levelsLoop nodes (levels @ [?cur]) (completed \<union> set ?cur)
          (filter (\<lambda>nodeId. nodeId \<notin> set ?cur) remaining) = Inr L"
        using "1.prems" False cur by (subst (asm) levelsLoop.simps) (simp add: Let_def)
      from "1.IH"[OF _ refl _ rec] False cur
      obtain new where new: "L = (levels @ [?cur]) @ new"
        "validLevels nodes (completed \<union> set ?cur) new"
        "mset (concat new) = mset (filter (\<lambda>nodeId. nodeId \<notin> set ?cur) remaining)"
        by auto
      have f: "filter (\<lambda>nodeId. nodeId \<notin> set ?cur) remaining
          = filter (\<lambda>n. \<not> allDepsCompleted nodes completed n) remaining"
        by (rule filter_cong) auto
      have "mset (concat (?cur # new)) = mset ?cur + mset (concat new)" by simp
      also have "\<dots> = mset ?cur + mset (filter (\<lambda>n. \<not> allDepsCompleted nodes completed n) remaining)"
        by (simp only: new(3) f)
      also have "\<dots> = mset remaining"
        by (simp only: mset_filter multiset_partition[symmetric])
      finally have "mset (concat (?cur # new)) = mset remaining" .
      moreover have "validLevels nodes completed (?cur # new)"
        using new(2) cur by (simp add: list_all_iff)
      ultimately show ?thesis using new(1) by (intro exI[of _ "?cur # new"]) simp
    qed
  qed
qed

lemma levelsLoop_acyclic:
  "acyclic (edgeRel nodes) \<Longrightarrow> fst ` set nodes \<subseteq> completed \<union> set remaining \<Longrightarrow>
   \<exists>L. levelsLoop nodes levels completed remaining = Inr L"
proof (induction nodes levels completed remaining rule: levelsLoop.induct)
  case (1 nodes levels completed remaining)
  let ?cur = "filter (allDepsCompleted nodes completed) remaining"
  show ?case
  proof (cases "remaining = []")
    case True
    then show ?thesis by (simp add: levelsLoop.simps)
  next
    case False
    have "wf ((edgeRel nodes)\<inverse>)"
      using finite_edgeRel "1.prems"(1) by (rule finite_acyclic_wf_converse)
    moreover from False obtain r where "r \<in> set remaining" by (cases remaining) auto
    ultimately obtain z where z: "z \<in> set remaining"
      "\<And>y. (y, z) \<in> (edgeRel nodes)\<inverse> \<Longrightarrow> y \<notin> set remaining"
      by (rule wfE_min) blast
    have "allDepsCompleted nodes completed z"
      unfolding allDepsCompleted_iff
    proof (intro allI impI)
      fix d assume e: "(z, d) \<in> edgeRel nodes"
      then have "d \<notin> set remaining" using z(2) by blast
      moreover from e have "d \<in> fst ` set nodes" by (simp add: edgeRel_def mapHas_iff)
      ultimately show "d \<in> completed" using "1.prems"(2) by blast
    qed
    with z(1) have cur: "?cur \<noteq> []" by (auto simp: filter_empty_conv)
    have sub: "fst ` set nodes \<subseteq> (completed \<union> set ?cur)
        \<union> set (filter (\<lambda>nodeId. nodeId \<notin> set ?cur) remaining)"
      using "1.prems"(2) by auto
    from "1.IH"[OF _ refl _ "1.prems"(1) sub] False cur
    obtain L where "levelsLoop nodes (levels @ [?cur]) (completed \<union> set ?cur)
          (filter (\<lambda>nodeId. nodeId \<notin> set ?cur) remaining) = Inr L" by auto
    then show ?thesis using False cur
      by (subst levelsLoop.simps) (simp add: Let_def)
  qed
qed

lemma validLevels_nth:
  "validLevels nodes C L \<Longrightarrow> k < length L \<Longrightarrow> t \<in> set (L ! k) \<Longrightarrow>
   L ! k \<noteq> [] \<and> allDepsCompleted nodes (C \<union> set (concat (take k L))) t"
proof (induction L arbitrary: C k)
  case Nil
  then show ?case by simp
next
  case (Cons lv L)
  show ?case
  proof (cases k)
    case 0
    with Cons.prems show ?thesis by (auto simp: list_all_iff)
  next
    case (Suc j)
    with Cons.prems Cons.IH[of "C \<union> set lv" j] show ?thesis
      by (simp add: Un_assoc)
  qed
qed

lemma validLevels_nonempty: "validLevels nodes C L \<Longrightarrow> [] \<notin> set L"
  by (induction L arbitrary: C) auto

lemma levels_edge:
  assumes v: "validLevels nodes {} L" and e: "(t, d) \<in> edgeRel nodes"
    and k: "k < length L" and t: "t \<in> set (L ! k)"
  shows "\<exists>j < k. d \<in> set (L ! j)"
proof -
  have "allDepsCompleted nodes ({} \<union> set (concat (take k L))) t"
    using validLevels_nth[OF v k t] by blast
  then have "d \<in> set (concat (take k L))" using e by (simp add: allDepsCompleted_iff)
  then obtain lv where lv: "lv \<in> set (take k L)" "d \<in> set lv" by auto
  then obtain j where "j < length (take k L)" "take k L ! j = lv" by (metis in_set_conv_nth)
  then have "j < k" "L ! j = lv" by simp_all
  with lv(2) show ?thesis by blast
qed

lemma levels_trancl:
  assumes v: "validLevels nodes {} L" and e: "(t, d) \<in> (edgeRel nodes)\<^sup>+"
    and k: "k < length L" and t: "t \<in> set (L ! k)"
  shows "\<exists>j < k. d \<in> set (L ! j)"
  using e
proof (induction rule: trancl_induct)
  case (base y)
  then show ?case using levels_edge[OF v _ k t] by blast
next
  case (step y z)
  then obtain j where j: "j < k" "y \<in> set (L ! j)" by blast
  then have "j < length L" using k by simp
  from levels_edge[OF v step(2) this j(2)] obtain j' where "j' < j" "z \<in> set (L ! j')" by blast
  with j(1) show ?case by (meson less_trans)
qed

section \<open>Kahn's algorithm\<close>

lemma set_edges: "distinct (map fst nodes) \<Longrightarrow> set (edges nodes) = depRel nodes"
  by (auto simp: edges_def depRel_def)

lemma set_esK: "distinct (map fst nodes) \<Longrightarrow> set (esK nodes) = edgeRel nodes"
  by (auto simp: esK_def edgeRel_def set_edges)

lemma fold_nested:
  "fold (\<lambda>(n, ds) st. fold (f n) ds st) xs st
     = fold (\<lambda>(n, d). f n d) (concat (map (\<lambda>(n, ds). map (Pair n) ds) xs)) st"
  by (induction xs arbitrary: st) (auto simp: fold_map comp_def)

lemma update_fresh: "k \<notin> fst ` set al \<Longrightarrow> AList.update k v al = al @ [(k, v)]"
  by (induction al) auto

lemma topoInit_gen:
  fixes i :: "(string \<times> int) list" and g :: "(string \<times> string list) list"
  shows "distinct (map fst i @ ks) \<Longrightarrow> map fst g = map fst i \<Longrightarrow>
   fold (\<lambda>nodeId (inDegree, graph). (AList.update nodeId 0 inDegree, AList.update nodeId [] graph)) ks (i, g)
     = (i @ map (\<lambda>k. (k, 0)) ks, g @ map (\<lambda>k. (k, [])) ks)"
proof (induction ks arbitrary: i g)
  case Nil
  then show ?case by simp
next
  case (Cons k ks)
  have k: "k \<notin> fst ` set i" "k \<notin> fst ` set g"
    using Cons.prems by (auto simp flip: set_map)
  have "distinct (map fst (i @ [(k, 0)]) @ ks)" using Cons.prems by auto
  moreover have "map fst (g @ [(k, [])]) = map fst (i @ [(k, 0::int)])" using Cons.prems by simp
  ultimately show ?case
    using Cons.IH[of "i @ [(k, 0)]" "g @ [(k, [])]"] k by (simp add: update_fresh)
qed

lemma topoInit_eq:
  "distinct (map fst nodes) \<Longrightarrow>
   topoInit nodes = (map (\<lambda>k. (k, 0)) (map fst nodes), map (\<lambda>k. (k, [])) (map fst nodes))"
  using topoInit_gen[of "[]" "map fst nodes" "[]"] by (simp add: topoInit_def)

lemma getOr_update: "getOr (AList.update k v al) k' d = (if k' = k then v else getOr al k' d)"
  by (simp add: getOr_def update_conv')

lemma build_gen:
  assumes "fst ` set el \<subseteq> fst ` set i" and "\<forall>d. mapHas nodes d \<longrightarrow> d \<in> fst ` set g"
    and "fold (\<lambda>(n, d). addEdge nodes n d) el (i, g) = (i', g')"
  shows "map fst i' = map fst i \<and> map fst g' = map fst g \<and>
     (\<forall>n. getOr i' n 0 = getOr i n 0 + int (length (filter (\<lambda>(m, d). m = n \<and> mapHas nodes d) el))) \<and>
     (\<forall>x. getOr g' x [] = getOr g x [] @ map fst (filter (\<lambda>(m, d). d = x \<and> mapHas nodes d) el))"
  using assms
proof (induction el arbitrary: i g)
  case Nil
  then show ?case by simp
next
  case (Cons e el)
  obtain n d where e: "e = (n, d)" by (cases e)
  obtain i1 g1 where s1: "addEdge nodes n d (i, g) = (i1, g1)" by (cases "addEdge nodes n d (i, g)")
  have n: "n \<in> fst ` set i" using Cons.prems(1) e by auto
  have keys1: "map fst i1 = map fst i" "map fst g1 = map fst g"
    using s1 n Cons.prems(2)
    by (auto simp: addEdge_def Let_def update_keys split: if_splits simp flip: set_map)
  have vals1: "getOr i1 m 0 = getOr i m 0 + (if m = n \<and> mapHas nodes d then 1 else 0)"
    "getOr g1 x [] = getOr g x [] @ (if x = d \<and> mapHas nodes d then [n] else [])" for m x
    using s1 by (auto simp: addEdge_def Let_def getOr_update split: if_splits)
  have p1: "fst ` set el \<subseteq> fst ` set i1"
    using Cons.prems(1) keys1(1) by (metis (no_types, lifting) set_map set_subset_Cons subset_trans image_mono)
  have p2: "\<forall>d. mapHas nodes d \<longrightarrow> d \<in> fst ` set g1"
    using Cons.prems(2) keys1(2) by (metis set_map)
  have p3: "fold (\<lambda>(n, d). addEdge nodes n d) el (i1, g1) = (i', g')"
    using Cons.prems(3) e s1 by simp
  from Cons.IH[OF p1 p2 p3] keys1 vals1 e show ?case
    by (auto simp: e)
qed

lemma getOr_const_map: "getOr (map (\<lambda>k. (k, c)) ks) n c = c"
  by (induction ks) (auto simp: getOr_def)

lemma topoBuild_props:
  assumes "distinct (map fst nodes)" and "topoBuild nodes = (i, g)"
  shows "map fst i = map fst nodes"
    and "getOr i n 0 = int (length (filter (\<lambda>(m, d). m = n) (esK nodes)))"
    and "getOr g x [] = map fst (filter (\<lambda>(m, d). d = x) (esK nodes))"
proof -
  let ?i0 = "map (\<lambda>k. (k, 0::int)) (map fst nodes)"
  let ?g0 = "map (\<lambda>k. (k, []::string list)) (map fst nodes)"
  have f: "fold (\<lambda>(n, d). addEdge nodes n d) (edges nodes) (?i0, ?g0) = (i, g)"
    using assms by (simp add: topoBuild_def fold_nested edges_def topoInit_eq)
  have a: "fst ` set (edges nodes) \<subseteq> fst ` set ?i0"
    by (force simp: edges_def)
  have b: "\<forall>d. mapHas nodes d \<longrightarrow> d \<in> fst ` set ?g0"
    by (force simp: mapHas_iff)
  note r = build_gen[OF a b f]
  have fl: "filter (\<lambda>(m, d). P m d) (esK nodes) = filter (\<lambda>(m, d). P m d \<and> mapHas nodes d) (edges nodes)" for P
    unfolding esK_def filter_filter by (rule filter_cong) auto
  have z: "getOr ?i0 n 0 = 0" "getOr ?g0 x [] = []"
    by (rule getOr_const_map)+
  show "map fst i = map fst nodes" using r by (simp add: comp_def)
  show "getOr i n 0 = int (length (filter (\<lambda>(m, d). m = n) (esK nodes)))"
    using r z by (simp add: fl)
  show "getOr g x [] = map fst (filter (\<lambda>(m, d). d = x) (esK nodes))"
    using r z by (simp add: fl)
qed

lemma getOr_default: "k \<in> fst ` set m \<Longrightarrow> getOr m k d = getOr m k d'"
  by (cases "map_of m k") (auto simp: getOr_def map_of_eq_None_iff)

lemma decrementStep_fold:
  assumes "\<forall>n \<in> set ds. int (count_list ds n) \<le> getOr i n 1"
    and "fold decrementStep ds (i, q) = (i', q')"
  shows "(\<forall>n. getOr i' n 1 = getOr i n 1 - int (count_list ds n)) \<and>
     (\<exists>pushed. q' = q @ pushed \<and> distinct pushed \<and>
        set pushed = {n \<in> set ds. getOr i n 1 = int (count_list ds n)})"
  using assms
proof (induction ds arbitrary: i q)
  case Nil
  then show ?case by simp
next
  case (Cons a ds)
  let ?nd = "getOr i a 1 - 1"
  let ?i1 = "AList.update a ?nd i"
  let ?q1 = "if ?nd = 0 then q @ [a] else q"
  have step: "decrementStep a (i, q) = (?i1, ?q1)"
    by (simp add: decrementStep_def Let_def)
  have g1: "getOr ?i1 n 1 = (if n = a then getOr i a 1 - 1 else getOr i n 1)" for n
    by (simp add: getOr_update)
  have ge: "1 + int (count_list ds a) \<le> getOr i a 1"
    using Cons.prems(1) by simp
  have pre: "\<forall>n \<in> set ds. int (count_list ds n) \<le> getOr ?i1 n 1"
  proof
    fix n assume "n \<in> set ds"
    then have "int (count_list (a # ds) n) \<le> getOr i n 1" using Cons.prems(1) by simp
    then show "int (count_list ds n) \<le> getOr ?i1 n 1"
      using ge by (cases "n = a") (simp_all add: g1)
  qed
  have f: "fold decrementStep ds (?i1, ?q1) = (i', q')"
    using Cons.prems(2) step by simp
  from Cons.IH[OF pre f] obtain pushed where
    deg: "\<forall>n. getOr i' n 1 = getOr ?i1 n 1 - int (count_list ds n)"
    and q': "q' = ?q1 @ pushed" and dp: "distinct pushed"
    and sp: "set pushed = {n \<in> set ds. getOr ?i1 n 1 = int (count_list ds n)}"
    by blast
  have deg': "\<forall>n. getOr i' n 1 = getOr i n 1 - int (count_list (a # ds) n)"
    using deg by (simp add: g1)
  show ?case
  proof (cases "?nd = 0")
    case True
    then have a1: "getOr i a 1 = 1" by simp
    with ge have ca: "count_list ds a = 0" by simp
    then have ands: "a \<notin> set ds" by (simp add: count_list_0_iff)
    have "q' = q @ (a # pushed)" using q' True by simp
    moreover have "distinct (a # pushed)" using dp sp ands by auto
    moreover have "set (a # pushed) = {n \<in> set (a # ds). getOr i n 1 = int (count_list (a # ds) n)}"
    proof (rule set_eqI)
      fix n
      show "n \<in> set (a # pushed) \<longleftrightarrow> n \<in> {n \<in> set (a # ds). getOr i n 1 = int (count_list (a # ds) n)}"
      proof (cases "n = a")
        case True
        then show ?thesis using a1 ca by simp
      next
        case False
        then show ?thesis using sp by (simp add: g1)
      qed
    qed
    ultimately show ?thesis using deg' by blast
  next
    case False
    have "q' = q @ pushed" using q' False by simp
    moreover have "set pushed = {n \<in> set (a # ds). getOr i n 1 = int (count_list (a # ds) n)}"
    proof (rule set_eqI)
      fix n
      show "n \<in> set pushed \<longleftrightarrow> n \<in> {n \<in> set (a # ds). getOr i n 1 = int (count_list (a # ds) n)}"
      proof (cases "n = a")
        case True
        show ?thesis
        proof (cases "a \<in> set ds")
          case True
          with \<open>n = a\<close> show ?thesis using sp by (simp add: g1) linarith
        next
          case nin: False
          then have "count_list ds a = 0" by (simp add: count_list_0_iff)
          with nin \<open>n = a\<close> False show ?thesis using sp by simp
        qed
      next
        case False
        then show ?thesis using sp by (simp add: g1)
      qed
    qed
    ultimately show ?thesis using deg' dp by blast
  qed
qed

lemma count_list_map_filter:
  "count_list (map fst (filter (\<lambda>(m, d). d = x) es)) n = length (filter (\<lambda>(m, d). m = n \<and> d = x) es)"
  by (induction es) auto

lemma length_filter_split:
  "length (filter P xs) = length (filter (\<lambda>e. P e \<and> Q e) xs) + length (filter (\<lambda>e. P e \<and> \<not> Q e) xs)"
  by (induction xs) auto

lemma remaining_snoc:
  assumes "x \<notin> set r"
  shows "remainingDeps es r n = remainingDeps es (r @ [x]) n
           + count_list (map fst (filter (\<lambda>(m, d). d = x) es)) n"
proof -
  have 1: "filter (\<lambda>e. (case e of (m, d) \<Rightarrow> m = n \<and> d \<notin> set r) \<and> snd e = x) es
      = filter (\<lambda>(m, d). m = n \<and> d = x) es"
    using assms by (intro filter_cong) auto
  have 2: "filter (\<lambda>e. (case e of (m, d) \<Rightarrow> m = n \<and> d \<notin> set r) \<and> \<not> snd e = x) es
      = filter (\<lambda>(m, d). m = n \<and> d \<notin> set (r @ [x])) es"
    by (intro filter_cong) auto
  show ?thesis
    unfolding remainingDeps_def count_list_map_filter
    using length_filter_split[of "\<lambda>(m, d). m = n \<and> d \<notin> set r" es "\<lambda>e. snd e = x"]
    by (simp only: 1 2)
qed

lemma remaining_zero_iff:
  "remainingDeps es r n = 0 \<longleftrightarrow> (\<forall>d. (n, d) \<in> set es \<longrightarrow> d \<in> set r)"
  by (auto simp: remainingDeps_def filter_empty_conv)

lemma kahnInv_step:
  assumes inv: "kahnInv K es i (x # rest) r"
    and graph: "getOr graph x [] = map fst (filter (\<lambda>(m, d). d = x) es)"
    and src: "fst ` set es \<subseteq> K"
    and f: "fold decrementStep (getOr graph x []) (i, rest) = (i', q')"
  shows "kahnInv K es i' q' (r @ [x])"
proof -
  let ?ds = "map fst (filter (\<lambda>(m, d). d = x) es)"
  from inv have dist: "distinct (r @ x # rest)" and sub: "set (r @ x # rest) \<subseteq> K"
    and deg: "\<And>n. n \<in> K \<Longrightarrow> getOr i n 1 = int (remainingDeps es r n)"
    and mem: "\<And>n. n \<in> K \<Longrightarrow> n \<in> set (r @ x # rest) \<longleftrightarrow> remainingDeps es r n = 0"
    and topo: "\<And>j d. j < length r \<Longrightarrow> (r ! j, d) \<in> set es \<Longrightarrow> d \<in> set (take j r)"
    by (auto simp: kahnInv_def)
  have xr: "x \<notin> set r" and xK: "x \<in> K" using dist sub by auto
  have split: "remainingDeps es r n = remainingDeps es (r @ [x]) n + count_list ?ds n" for n
    using xr by (rule remaining_snoc)
  have dsK: "set ?ds \<subseteq> K" using src by auto
  have pre: "\<forall>n \<in> set ?ds. int (count_list ?ds n) \<le> getOr i n 1"
  proof
    fix n assume "n \<in> set ?ds"
    then have "n \<in> K" using dsK by blast
    then show "int (count_list ?ds n) \<le> getOr i n 1" using deg[of n] split[of n] by simp
  qed
  from decrementStep_fold[OF pre] f graph obtain pushed where
    deg': "\<And>n. getOr i' n 1 = getOr i n 1 - int (count_list ?ds n)"
    and q': "q' = rest @ pushed" and dp: "distinct pushed"
    and sp: "set pushed = {n \<in> set ?ds. getOr i n 1 = int (count_list ?ds n)}"
    by (metis (no_types, lifting))
  have pushedK: "set pushed \<subseteq> K" using sp dsK by blast
  have pushed_new: "n \<notin> set (r @ x # rest)" if "n \<in> set pushed" for n
  proof -
    from that sp have nds: "n \<in> set ?ds" and e: "getOr i n 1 = int (count_list ?ds n)" by auto
    have nK: "n \<in> K" using nds dsK by blast
    have "count_list ?ds n \<noteq> 0" using nds by (simp add: count_list_0_iff)
    then have "remainingDeps es r n \<noteq> 0" using e deg[OF nK] by simp
    then show ?thesis using mem[OF nK] by simp
  qed
  have a1: "distinct ((r @ [x]) @ q')"
    using dist dp pushed_new unfolding q' by auto
  have a2: "set ((r @ [x]) @ q') \<subseteq> K"
    using sub pushedK unfolding q' by auto
  have b: "\<forall>n \<in> K. getOr i' n 1 = int (remainingDeps es (r @ [x]) n)"
    using deg deg' split by simp
  have c: "\<forall>n \<in> K. n \<in> set ((r @ [x]) @ q') \<longleftrightarrow> remainingDeps es (r @ [x]) n = 0"
  proof
    fix n assume nK: "n \<in> K"
    show "n \<in> set ((r @ [x]) @ q') \<longleftrightarrow> remainingDeps es (r @ [x]) n = 0"
    proof
      assume "n \<in> set ((r @ [x]) @ q')"
      then consider "n \<in> set (r @ x # rest)" | "n \<in> set pushed" unfolding q' by auto
      then show "remainingDeps es (r @ [x]) n = 0"
      proof cases
        case 1
        then have "remainingDeps es r n = 0" using mem[OF nK] by simp
        then show ?thesis using split[of n] by simp
      next
        case 2
        then have "getOr i n 1 = int (count_list ?ds n)" using sp by simp
        then show ?thesis using deg[OF nK] split[of n] by simp
      qed
    next
      assume z: "remainingDeps es (r @ [x]) n = 0"
      then have e: "remainingDeps es r n = count_list ?ds n" using split[of n] by simp
      show "n \<in> set ((r @ [x]) @ q')"
      proof (cases "count_list ?ds n = 0")
        case True
        then have "n \<in> set (r @ x # rest)" using e mem[OF nK] by simp
        then show ?thesis unfolding q' by auto
      next
        case False
        then have "n \<in> set ?ds" by (simp add: count_list_0_iff)
        moreover have "getOr i n 1 = int (count_list ?ds n)" using deg[OF nK] e by simp
        ultimately have "n \<in> set pushed" using sp by simp
        then show ?thesis unfolding q' by simp
      qed
    qed
  qed
  have d: "\<forall>j < length (r @ [x]). \<forall>d. ((r @ [x]) ! j, d) \<in> set es \<longrightarrow> d \<in> set (take j (r @ [x]))"
  proof (intro allI impI)
    fix j d assume j: "j < length (r @ [x])" and e: "((r @ [x]) ! j, d) \<in> set es"
    show "d \<in> set (take j (r @ [x]))"
    proof (cases "j < length r")
      case True
      then show ?thesis using topo[of j d] e by (simp add: nth_append)
    next
      case False
      then have jl: "j = length r" using j by simp
      have "remainingDeps es r x = 0" using mem[OF xK] by simp
      then have "d \<in> set r" using e jl by (simp add: remaining_zero_iff)
      then show ?thesis using jl by simp
    qed
  qed
  show ?thesis unfolding kahnInv_def using a1 a2 b c d by blast
qed

lemma kahnLoop_inv:
  assumes "kahnInv K es i q r"
    and "\<forall>x \<in> K. getOr graph x [] = map fst (filter (\<lambda>(m, d). d = x) es)"
    and "fst ` set es \<subseteq> K"
  shows "\<exists>i'. kahnInv K es i' [] (kahnLoop graph i q r)"
  using assms
proof (induction graph i q r rule: kahnLoop.induct)
  case (1 graph i q r)
  show ?case
  proof (cases q)
    case Nil
    then show ?thesis using "1.prems"(1) by (auto simp: kahnLoop.simps)
  next
    case (Cons x rest)
    obtain i' q' where f: "fold decrementStep (getOr graph x []) (i, rest) = (i', q')"
      by (cases "fold decrementStep (getOr graph x []) (i, rest)")
    have xK: "x \<in> K" using "1.prems"(1) Cons by (auto simp: kahnInv_def)
    have inv': "kahnInv K es i' q' (r @ [x])"
      using kahnInv_step[OF _ _ "1.prems"(3) f] "1.prems"(1,2) Cons xK by blast
    from "1.IH"[OF Cons f[symmetric] inv' "1.prems"(2,3)]
    show ?thesis using Cons f by (subst kahnLoop.simps) simp
  qed
qed

lemma topologicalSort_kahnResult:
  "topologicalSort nodes =
     (if length (kahnResult nodes) \<noteq> length nodes
      then Inl (CyclicDependencyError (detectCycle nodes))
      else Inr (kahnResult nodes))"
  by (simp add: topologicalSort_def kahnResult_def Let_def split: prod.splits)

lemma edgeRel_subset: "edgeRel nodes \<subseteq> depRel nodes"
  by (auto simp: edgeRel_def)

lemma depRel_trancl_edgeRel_has:
  "(a, b) \<in> (depRel nodes)\<^sup>+ \<Longrightarrow> mapHas nodes b \<Longrightarrow> (a, b) \<in> (edgeRel nodes)\<^sup>+"
proof (induction rule: trancl_induct)
  case (base y)
  then show ?case by (auto simp: edgeRel_def)
next
  case (step y z)
  then have "(y, z) \<in> edgeRel nodes" by (simp add: edgeRel_def)
  moreover have "mapHas nodes y" using step(2) by (auto simp: depRel_def mapHas_def)
  ultimately show ?case using step.IH by (meson trancl.trancl_into_trancl)
qed

lemma acyclic_edgeRel_iff: "acyclic (edgeRel nodes) \<longleftrightarrow> acyclic (depRel nodes)"
proof
  assume a: "acyclic (edgeRel nodes)"
  show "acyclic (depRel nodes)"
    unfolding acyclic_def
  proof (intro allI notI)
    fix x assume x: "(x, x) \<in> (depRel nodes)\<^sup>+"
    then obtain d where "(x, d) \<in> depRel nodes" by (meson tranclD)
    then have "mapHas nodes x" by (auto simp: depRel_def mapHas_def)
    with x have "(x, x) \<in> (edgeRel nodes)\<^sup>+" by (rule depRel_trancl_edgeRel_has)
    with a show False by (simp add: acyclic_def)
  qed
next
  assume "acyclic (depRel nodes)"
  then show "acyclic (edgeRel nodes)" using edgeRel_subset by (rule acyclic_subset)
qed

lemma kahnInv_init:
  assumes d: "distinct (map fst i)"
    and deg: "\<forall>n. getOr i n 0 = int (length (filter (\<lambda>(m, d). m = n) es))"
  shows "kahnInv (fst ` set i) es i (map fst (filter (\<lambda>(nodeId, degree). degree = 0) i)) []"
proof -
  let ?q = "map fst (filter (\<lambda>(nodeId, degree). degree = 0) i)"
  have a: "distinct ?q" using d by (rule distinct_map_filter)
  have b: "set ?q \<subseteq> fst ` set i" by auto
  have r0: "remainingDeps es [] n = length (filter (\<lambda>(m, d). m = n) es)" for n
    by (simp add: remainingDeps_def)
  have c: "getOr i n 1 = int (remainingDeps es [] n)" if "n \<in> fst ` set i" for n
    using deg getOr_default[OF that, of 1 0] by (simp add: r0)
  have m: "n \<in> set ?q \<longleftrightarrow> remainingDeps es [] n = 0" if n: "n \<in> fst ` set i" for n
  proof -
    have "n \<in> set ?q \<longleftrightarrow> (n, 0) \<in> set i" by force
    also have "\<dots> \<longleftrightarrow> map_of i n = Some 0" using d by simp
    also have "\<dots> \<longleftrightarrow> getOr i n 1 = 0"
      using n by (cases "map_of i n") (auto simp: getOr_def map_of_eq_None_iff)
    also have "\<dots> \<longleftrightarrow> remainingDeps es [] n = 0" using c[OF n] by simp
    finally show ?thesis .
  qed
  show ?thesis unfolding kahnInv_def using a b c m by simp
qed

lemma kahnResult_inv:
  assumes "distinct (map fst nodes)"
  shows "\<exists>i'. kahnInv (fst ` set nodes) (esK nodes) i' [] (kahnResult nodes)"
proof -
  obtain i g where b: "topoBuild nodes = (i, g)" by (cases "topoBuild nodes")
  note p = topoBuild_props[OF assms b]
  have K: "fst ` set i = fst ` set nodes" using p(1) by (metis set_map)
  have di: "distinct (map fst i)" using p(1) assms by simp
  have init: "kahnInv (fst ` set nodes) (esK nodes) i (map fst (filter (\<lambda>(nodeId, degree). degree = 0) i)) []"
    using kahnInv_init[OF di, of "esK nodes"] p(2) K by simp
  have src: "fst ` set (esK nodes) \<subseteq> fst ` set nodes"
    by (force simp: esK_def edges_def)
  from kahnLoop_inv[OF init _ src, of g] p(3) b show ?thesis
    by (simp add: kahnResult_def)
qed

lemma kahnResult_props:
  assumes "distinct (map fst nodes)"
  shows "distinct (kahnResult nodes)" and "set (kahnResult nodes) \<subseteq> fst ` set nodes"
    and "\<And>n. n \<in> fst ` set nodes \<Longrightarrow>
           n \<in> set (kahnResult nodes) \<longleftrightarrow> (\<forall>d. (n, d) \<in> edgeRel nodes \<longrightarrow> d \<in> set (kahnResult nodes))"
    and "\<And>j d. j < length (kahnResult nodes) \<Longrightarrow> (kahnResult nodes ! j, d) \<in> edgeRel nodes
           \<Longrightarrow> d \<in> set (take j (kahnResult nodes))"
  using kahnResult_inv[OF assms] set_esK[OF assms]
  by (auto simp: kahnInv_def remaining_zero_iff)

lemma kahnResult_complete:
  assumes d: "distinct (map fst nodes)" and a: "acyclic (edgeRel nodes)"
  shows "set (kahnResult nodes) = fst ` set nodes"
proof (rule ccontr)
  assume ne: "set (kahnResult nodes) \<noteq> fst ` set nodes"
  let ?S = "fst ` set nodes - set (kahnResult nodes)"
  from ne kahnResult_props(2)[OF d] obtain s where s: "s \<in> ?S" by blast
  have "wf ((edgeRel nodes)\<inverse>)" using finite_edgeRel a by (rule finite_acyclic_wf_converse)
  then obtain z where z: "z \<in> ?S" "\<And>y. (y, z) \<in> (edgeRel nodes)\<inverse> \<Longrightarrow> y \<notin> ?S"
    using s by (rule wfE_min) blast
  have "\<forall>d. (z, d) \<in> edgeRel nodes \<longrightarrow> d \<in> set (kahnResult nodes)"
  proof (intro allI impI)
    fix d assume e: "(z, d) \<in> edgeRel nodes"
    then have "d \<notin> ?S" using z(2) by blast
    moreover from e have "d \<in> fst ` set nodes" by (simp add: edgeRel_def mapHas_iff)
    ultimately show "d \<in> set (kahnResult nodes)" by blast
  qed
  then have "z \<in> set (kahnResult nodes)" using kahnResult_props(3)[OF d, of z] z(1) by blast
  with z(1) show False by blast
qed

lemma kahnResult_length_acyclic:
  assumes d: "distinct (map fst nodes)"
  shows "length (kahnResult nodes) = length nodes \<longleftrightarrow> acyclic (edgeRel nodes)"
proof
  assume a: "acyclic (edgeRel nodes)"
  have "length (kahnResult nodes) = card (set (kahnResult nodes))"
    using kahnResult_props(1)[OF d] by (simp add: distinct_card)
  also have "\<dots> = card (set (map fst nodes))" using kahnResult_complete[OF d a] by simp
  also have "\<dots> = length nodes" using distinct_card[OF d] by simp
  finally show "length (kahnResult nodes) = length nodes" .
next
  assume l: "length (kahnResult nodes) = length nodes"
  let ?R = "kahnResult nodes"
  have "card (set ?R) = card (fst ` set nodes)"
    using l kahnResult_props(1)[OF d] d by (metis distinct_card length_map set_map)
  then have full: "set ?R = fst ` set nodes"
    using kahnResult_props(2)[OF d] by (simp add: card_subset_eq)
  define rank where "rank n = (THE j. j < length ?R \<and> ?R ! j = n)" for n
  have rk: "rank (?R ! j) = j" if "j < length ?R" for j
    unfolding rank_def using that kahnResult_props(1)[OF d]
    by (intro the_equality) (auto simp: nth_eq_iff_index_eq)
  show "acyclic (edgeRel nodes)"
  proof (rule acyclicI_order[where f = rank])
    fix a b assume e: "(a, b) \<in> edgeRel nodes"
    then have "a \<in> fst ` set nodes"
      by (auto simp: edgeRel_def depRel_def dest!: map_of_SomeD) force
    then obtain j where j: "j < length ?R" "?R ! j = a" using full by (metis in_set_conv_nth)
    with e have "b \<in> set (take j ?R)" using kahnResult_props(4)[OF d, of j b] by simp
    then obtain k where k: "k < j" "?R ! k = b"
      by (metis in_set_conv_nth length_take min_less_iff_conj nth_take)
    then show "rank b < rank a" using rk[of j] rk[of k] j by simp
  qed
qed

section \<open>The depth-first search for a cycle\<close>

lemma dependsOn_iff: "dependsOn nodes n d \<longleftrightarrow> (n, d) \<in> depRel nodes"
  by (cases "map_of nodes n") (auto simp: dependsOn_def depRel_def getOr_def)

lemma edgeRel_iff: "(n, d) \<in> edgeRel nodes \<longleftrightarrow> dependsOn nodes n d \<and> mapHas nodes d"
  by (simp add: edgeRel_def dependsOn_iff)

lemma closed_rtrancl:
  assumes "\<forall>n \<in> B. \<forall>d. (n, d) \<in> E \<longrightarrow> d \<in> B" and "(a, b) \<in> E\<^sup>*" and "a \<in> B"
  shows "b \<in> B"
  using assms(2,3,1) by (induction rule: rtrancl_induct) auto

lemma indexOfList_Some:
  "x \<in> set xs \<Longrightarrow> \<exists>i. indexOfList x xs = Some i \<and> i < length xs \<and> xs ! i = x"
  by (induction xs) auto

lemma successively_drop: "successively P xs \<Longrightarrow> successively P (drop i xs)"
  using successively_append_iff[of P "take i xs" "drop i xs"] by simp

lemma enter_inv:
  assumes inv: "stInv nodes s" and bl: "blackInv nodes s" and nv: "n \<notin> visited s"
    and e: "path s \<noteq> [] \<longrightarrow> (last (path s), n) \<in> edgeRel nodes"
  defines "s1 \<equiv> s\<lparr>visited := insert n (visited s), recursionStack := insert n (recursionStack s),
                    path := path s @ [n]\<rparr>"
  shows "stInv nodes s1" and "blackInv nodes s1"
proof -
  from inv have i: "recursionStack s = set (path s)" "distinct (path s)"
    "successively (\<lambda>x y. (x, y) \<in> edgeRel nodes) (path s)" "set (path s) \<subseteq> visited s"
    unfolding stInv_def by blast+
  have np: "n \<notin> set (path s)" using i(4) nv by blast
  have 1: "successively (\<lambda>x y. (x, y) \<in> edgeRel nodes) (path s @ [n])"
    unfolding successively_append_iff using i(3) e by auto
  have 2: "recursionStack s1 = set (path s1)" by (simp add: s1_def i(1))
  have 3: "distinct (path s1)" using i(2) np by (simp add: s1_def)
  have 4: "set (path s1) \<subseteq> visited s1" using i(4) by (auto simp: s1_def)
  have 5: "path s1 = path s @ [n]" by (simp add: s1_def)
  show "stInv nodes s1" unfolding stInv_def using 1 2 3 4 unfolding 5 by blast
  have eq: "visited s1 - recursionStack s1 = visited s - recursionStack s"
    using nv by (auto simp: s1_def)
  show "blackInv nodes s1" unfolding blackInv_def eq using bl unfolding blackInv_def .
qed

lemma cycle_found:
  assumes inv: "stInv nodes s" and ne: "path s \<noteq> []"
    and dep: "dependsOn nodes (last (path s)) dep" and st: "dep \<in> recursionStack s"
  shows "closedWalk nodes (sliceFrom (indexOfList dep (path s)) (path s) @ [dep])"
proof -
  from inv have iv: "recursionStack s = set (path s)"
    "successively (\<lambda>x y. (x, y) \<in> edgeRel nodes) (path s)"
    unfolding stInv_def by blast+
  from iv(1) st have "dep \<in> set (path s)" by simp
  then obtain i where i: "indexOfList dep (path s) = Some i" "i < length (path s)" "path s ! i = dep"
    using indexOfList_Some[of dep "path s"] by blast
  let ?c = "drop i (path s)"
  have c: "sliceFrom (indexOfList dep (path s)) (path s) = ?c" by (simp add: sliceFrom_def i(1))
  have cne: "?c \<noteq> []" using i(2) by simp
  have hd: "hd ?c = dep" using i by (simp add: hd_drop_conv_nth)
  have lst: "last ?c = last (path s)" using i(2) by simp
  have "successively (\<lambda>x y. (x, y) \<in> edgeRel nodes) ?c"
    using iv(2) by (rule successively_drop)
  then have w: "successively (dependsOn nodes) ?c"
    by (rule successively_mono) (simp add: edgeRel_iff)
  have "successively (dependsOn nodes) (?c @ [dep])"
    unfolding successively_append_iff using w cne dep lst by simp
  moreover have "2 \<le> length (?c @ [dep])" using i(2) by simp
  moreover have "hd (?c @ [dep]) = last (?c @ [dep])" using cne hd by simp
  ultimately show ?thesis unfolding c closedWalk_def by blast
qed

lemma leave_inv:
  assumes inv: "stInv nodes s" and nv: "n \<notin> visited s"
    and inv2: "stInv nodes s2" and bl2: "blackInv nodes s2"
    and p2: "path s2 = path s @ [n]" and v2: "insert n (visited s) \<subseteq> visited s2"
    and succ: "\<forall>d \<in> set (getOr nodes n []). mapHas nodes d \<longrightarrow> d \<in> visited s2 - recursionStack s2"
  defines "s3 \<equiv> s2\<lparr>path := butlast (path s2), recursionStack := recursionStack s2 - {n}\<rparr>"
  shows "stInv nodes s3" and "blackInv nodes s3" and "path s3 = path s"
    and "visited s \<subseteq> visited s3" and "n \<in> visited s3 - recursionStack s3"
proof -
  from inv have i: "recursionStack s = set (path s)" "distinct (path s)"
    "successively (\<lambda>x y. (x, y) \<in> edgeRel nodes) (path s)" "set (path s) \<subseteq> visited s"
    unfolding stInv_def by blast+
  from inv2 have i2: "recursionStack s2 = set (path s2)"
    unfolding stInv_def by blast
  have np: "n \<notin> set (path s)" using i(4) nv by blast
  have st2: "recursionStack s2 = insert n (set (path s))" using i2 p2 by simp
  have st3: "recursionStack s3 = set (path s)" using st2 np by (simp add: s3_def)
  show p3: "path s3 = path s" by (simp add: s3_def p2)
  have v3: "visited s3 = visited s2" by (simp add: s3_def)
  have sub3: "set (path s3) \<subseteq> visited s3" unfolding p3 v3 using i(4) v2 by blast
  show "stInv nodes s3"
    unfolding stInv_def p3 using st3 i(2) i(3) sub3 unfolding p3 by blast
  show "visited s \<subseteq> visited s3" unfolding v3 using v2 by blast
  show n3: "n \<in> visited s3 - recursionStack s3" unfolding v3 st3 using v2 np by blast
  let ?B2 = "visited s2 - recursionStack s2"
  have B3: "visited s3 - recursionStack s3 = insert n ?B2"
    unfolding v3 st3 st2 using np v2 by blast
  from bl2 have closed2: "\<forall>m \<in> ?B2. \<forall>d. (m, d) \<in> edgeRel nodes \<longrightarrow> d \<in> ?B2"
    and acyc2: "\<forall>m \<in> ?B2. (m, m) \<notin> (edgeRel nodes)\<^sup>+"
    unfolding blackInv_def by blast+
  have nsucc: "d \<in> ?B2" if "(n, d) \<in> edgeRel nodes" for d
    using that succ unfolding edgeRel_iff dependsOn_def by blast
  have nB2: "n \<notin> ?B2" unfolding st2 by blast
  have nocyc: "(n, n) \<notin> (edgeRel nodes)\<^sup>+"
  proof
    assume "(n, n) \<in> (edgeRel nodes)\<^sup>+"
    then obtain d where d: "(n, d) \<in> edgeRel nodes" "(d, n) \<in> (edgeRel nodes)\<^sup>*"
      by (meson tranclD)
    from closed_rtrancl[OF closed2 d(2) nsucc[OF d(1)] ] nB2 show False by blast
  qed
  show "blackInv nodes s3"
    unfolding blackInv_def B3
  proof (intro conjI ballI allI impI)
    fix m d assume m: "m \<in> insert n ?B2" and e: "(m, d) \<in> edgeRel nodes"
    show "d \<in> insert n ?B2"
    proof (cases "m = n")
      case True
      then show ?thesis using nsucc e by blast
    next
      case False
      then have "m \<in> ?B2" using m by blast
      then show ?thesis using closed2 e by blast
    qed
  next
    fix m assume m: "m \<in> insert n ?B2"
    show "(m, m) \<notin> (edgeRel nodes)\<^sup>+"
    proof (cases "m = n")
      case True
      then show ?thesis using nocyc by simp
    next
      case False
      then have "m \<in> ?B2" using m by blast
      then show ?thesis using acyc2 by blast
    qed
  qed
qed

lemma dfsPost_None:
  "dfsPost nodes s (None, s') \<longleftrightarrow>
     stInv nodes s' \<and> blackInv nodes s' \<and> path s' = path s \<and> visited s \<subseteq> visited s'"
  by (simp add: dfsPost_def)

lemma dfsPost_Some: "dfsPost nodes s (Some c, s') \<longleftrightarrow> closedWalk nodes c"
  by (simp add: dfsPost_def)

lemma stInv_stack: "stInv nodes s \<Longrightarrow> recursionStack s = set (path s)"
  unfolding stInv_def by blast

lemma stInv_path_visited: "stInv nodes s \<Longrightarrow> set (path s) \<subseteq> visited s"
  unfolding stInv_def by blast

lemma dfs_correct:
  "stInv nodes s \<Longrightarrow> blackInv nodes s \<Longrightarrow> n \<notin> visited s \<Longrightarrow>
     (path s \<noteq> [] \<longrightarrow> (last (path s), n) \<in> edgeRel nodes) \<Longrightarrow>
     dfsNodePost nodes n s (dfs nodes n s)"
  "stInv nodes s \<Longrightarrow> blackInv nodes s \<Longrightarrow> path s \<noteq> [] \<Longrightarrow>
     set ds \<subseteq> set (getOr nodes (last (path s)) []) \<Longrightarrow>
     dfsDepsPost nodes ds s (dfsDeps nodes ds s)"
proof (induction nodes n s and nodes ds s rule: dfs_dfsDeps.induct)
  case (1 nodes nodeId s)
  let ?s1 = "s\<lparr>visited := insert nodeId (visited s),
                recursionStack := insert nodeId (recursionStack s),
                path := path s @ [nodeId]\<rparr>"
  obtain r s2 where res: "dfsDeps nodes (getOr nodes nodeId []) ?s1 = (r, s2)"
    by (cases "dfsDeps nodes (getOr nodes nodeId []) ?s1")
  have e1: "stInv nodes ?s1" "blackInv nodes ?s1"
    using enter_inv[OF "1.prems"(1,2,3,4)] by blast+
  have "dfsDepsPost nodes (getOr nodes nodeId []) ?s1 (dfsDeps nodes (getOr nodes nodeId []) ?s1)"
    by (rule "1.IH"[OF e1]) simp_all
  then have post: "dfsPost nodes ?s1 (r, s2)"
    and blk: "r = None \<Longrightarrow> \<forall>d \<in> set (getOr nodes nodeId []). mapHas nodes d \<longrightarrow> d \<in> visited s2 - recursionStack s2"
    unfolding dfsDepsPost_def res by simp_all
  show ?case
  proof (cases r)
    case (Some c)
    then have "dfs nodes nodeId s = (Some c, s2)" using res by (simp add: dfs.simps)
    moreover have "closedWalk nodes c" using post Some by (simp add: dfsPost_Some)
    ultimately show ?thesis by (simp add: dfsNodePost_def dfsPost_Some)
  next
    case None
    let ?s3 = "s2\<lparr>path := butlast (path s2), recursionStack := recursionStack s2 - {nodeId}\<rparr>"
    have d: "dfs nodes nodeId s = (None, ?s3)" using res None by (simp add: dfs.simps)
    from post None have "dfsPost nodes ?s1 (None, s2)" by simp
    then have p: "stInv nodes s2" "blackInv nodes s2" "path s2 = path ?s1"
      "visited ?s1 \<subseteq> visited s2"
      unfolding dfsPost_None by blast+
    have p2: "path s2 = path s @ [nodeId]" using p(3) by simp
    have v2: "insert nodeId (visited s) \<subseteq> visited s2" using p(4) by simp
    note l = leave_inv[OF "1.prems"(1) "1.prems"(3) p(1) p(2) p2 v2 blk[OF None] ]
    show ?thesis unfolding d dfsNodePost_def dfsPost_None using l by simp
  qed
next
  case (2 nodes s)
  then show ?case by (simp add: dfsDepsPost_def dfsPost_None)
next
  case (3 nodes dep rest s)
  have rest: "set rest \<subseteq> set (getOr nodes (last (path s)) [])"
    and depin: "dep \<in> set (getOr nodes (last (path s)) [])"
    using "3.prems"(4) by simp_all
  show ?case
  proof (cases "mapHas nodes dep")
    case False
    have "dfsDepsPost nodes rest s (dfsDeps nodes rest s)"
      by (rule "3.IH"(1)[OF False "3.prems"(1,2,3) rest])
    then show ?thesis using False by (simp add: dfsDepsPost_def)
  next
    case has: True
    show ?thesis
    proof (cases "dep \<in> visited s")
      case nv: False
      have e: "path s \<noteq> [] \<longrightarrow> (last (path s), dep) \<in> edgeRel nodes"
        using depin has by (simp add: edgeRel_iff dependsOn_def)
      obtain r s' where res: "dfs nodes dep s = (r, s')" by (cases "dfs nodes dep s")
      have "dfsNodePost nodes dep s (dfs nodes dep s)"
        using "3.IH"(2)[OF _ nv "3.prems"(1,2) nv e] has by simp
      then have post: "dfsPost nodes s (r, s')"
        and blk: "r = None \<Longrightarrow> dep \<in> visited s' - recursionStack s'"
        unfolding dfsNodePost_def res by simp_all
      show ?thesis
      proof (cases r)
        case (Some c)
        then have "dfsDeps nodes (dep # rest) s = (Some c, s')" using res has nv by simp
        moreover have "closedWalk nodes c" using post Some by (simp add: dfsPost_Some)
        ultimately show ?thesis by (simp add: dfsDepsPost_def dfsPost_Some)
      next
        case None
        from post None have "dfsPost nodes s (None, s')" by simp
        then have p: "stInv nodes s'" "blackInv nodes s'" "path s' = path s"
          "visited s \<subseteq> visited s'"
          unfolding dfsPost_None by blast+
        have ne': "path s' \<noteq> []" using p(3) "3.prems"(3) by simp
        have rest': "set rest \<subseteq> set (getOr nodes (last (path s')) [])" using rest p(3) by simp
        have ih: "dfsDepsPost nodes rest s' (dfsDeps nodes rest s')"
          using "3.IH"(3)[OF _ nv res[symmetric] None p(1,2) ne' rest'] has by simp
        have eq: "dfsDeps nodes (dep # rest) s = dfsDeps nodes rest s'"
          using res None has nv by simp
        obtain r2 s'' where res2: "dfsDeps nodes rest s' = (r2, s'')" by (cases "dfsDeps nodes rest s'")
        show ?thesis
        proof (cases r2)
          case (Some c)
          then show ?thesis using ih unfolding eq res2 dfsDepsPost_def by (simp add: dfsPost_Some)
        next
          case n2: None
          from ih n2 have "dfsDepsPost nodes rest s' (None, s'')" unfolding res2 by simp
          then have q: "stInv nodes s''" "blackInv nodes s''" "path s'' = path s'"
            "visited s' \<subseteq> visited s''"
            and qb: "\<forall>d \<in> set rest. mapHas nodes d \<longrightarrow> d \<in> visited s'' - recursionStack s''"
            unfolding dfsDepsPost_def dfsPost_None by simp_all
          have rs: "recursionStack s'' = recursionStack s'"
            using stInv_stack[OF q(1)] stInv_stack[OF p(1)] q(3) by simp
          have "dep \<in> visited s'' - recursionStack s''"
            using blk[OF None] q(4) rs by blast
          then show ?thesis unfolding eq res2 n2 dfsDepsPost_def dfsPost_None
            using q qb p(3,4) by auto
        qed
      qed
    next
      case vis: True
      show ?thesis
      proof (cases "dep \<in> recursionStack s")
        case True
        have "closedWalk nodes (sliceFrom (indexOfList dep (path s)) (path s) @ [dep])"
          using "3.prems"(1,3) depin True by (intro cycle_found) (simp_all add: dependsOn_def)
        then show ?thesis using has vis True by (simp add: dfsDepsPost_def dfsPost_Some)
      next
        case False
        have ih: "dfsDepsPost nodes rest s (dfsDeps nodes rest s)"
          using "3.IH"(4)[OF _ _ False "3.prems"(1,2,3) rest] has vis by simp
        have eq: "dfsDeps nodes (dep # rest) s = dfsDeps nodes rest s" using has vis False by simp
        obtain r2 s'' where res2: "dfsDeps nodes rest s = (r2, s'')" by (cases "dfsDeps nodes rest s")
        show ?thesis
        proof (cases r2)
          case (Some c)
          then show ?thesis using ih unfolding eq res2 dfsDepsPost_def by (simp add: dfsPost_Some)
        next
          case n2: None
          from ih n2 have "dfsDepsPost nodes rest s (None, s'')" unfolding res2 by simp
          then have q: "stInv nodes s''" "blackInv nodes s''" "path s'' = path s"
            "visited s \<subseteq> visited s''"
            and qb: "\<forall>d \<in> set rest. mapHas nodes d \<longrightarrow> d \<in> visited s'' - recursionStack s''"
            unfolding dfsDepsPost_def dfsPost_None by simp_all
          have rs: "recursionStack s'' = recursionStack s"
            using stInv_stack[OF q(1)] stInv_stack[OF "3.prems"(1)] q(3) by simp
          have "dep \<in> visited s'' - recursionStack s''"
            using vis False q(4) rs by blast
          then show ?thesis unfolding eq res2 n2 dfsDepsPost_def dfsPost_None
            using q qb by auto
        qed
      qed
    qed
  qed
qed

lemma detectLoop_correct:
  "stInv nodes s \<Longrightarrow> blackInv nodes s \<Longrightarrow> path s = [] \<Longrightarrow>
   (case detectLoop nodes ks s of
      Some c \<Rightarrow> closedWalk nodes c
    | None \<Rightarrow> \<exists>s'. stInv nodes s' \<and> blackInv nodes s' \<and> path s' = [] \<and> visited s \<union> set ks \<subseteq> visited s')"
proof (induction ks arbitrary: s)
  case Nil
  then show ?case by auto
next
  case (Cons k ks)
  show ?case
  proof (cases "k \<in> visited s")
    case True
    from Cons.IH[OF Cons.prems] True show ?thesis
      by (auto split: option.splits)
  next
    case False
    obtain r s' where res: "dfs nodes k s = (r, s')" by (cases "dfs nodes k s")
    have "dfsNodePost nodes k s (dfs nodes k s)"
      using dfs_correct(1)[OF Cons.prems(1,2) False] Cons.prems(3) by simp
    then have post: "dfsPost nodes s (r, s')"
      and blk: "r = None \<Longrightarrow> k \<in> visited s' - recursionStack s'"
      unfolding dfsNodePost_def res by simp_all
    show ?thesis
    proof (cases r)
      case (Some c)
      then show ?thesis using post res False by (simp add: dfsPost_Some)
    next
      case None
      from post None have "dfsPost nodes s (None, s')" by simp
      then have p: "stInv nodes s'" "blackInv nodes s'" "path s' = path s" "visited s \<subseteq> visited s'"
        unfolding dfsPost_None by blast+
      have p3: "path s' = []" using p(3) Cons.prems(3) by simp
      have k: "k \<in> visited s'" using blk[OF None] by blast
      have eq: "detectLoop nodes (k # ks) s = detectLoop nodes ks s'"
        using False res None by simp
      show ?thesis
      proof (cases "detectLoop nodes ks s'")
        case (Some c)
        with Cons.IH[OF p(1,2) p3] show ?thesis unfolding eq by simp
      next
        case n: None
        with Cons.IH[OF p(1,2) p3] obtain s'' where
          "stInv nodes s''" "blackInv nodes s''" "path s'' = []" "visited s' \<union> set ks \<subseteq> visited s''"
          by auto
        moreover from this(4) p(4) k have "visited s \<union> set (k # ks) \<subseteq> visited s''" by auto
        ultimately show ?thesis unfolding eq n by auto
      qed
    qed
  qed
qed

lemma detectLoop_None_acyclic:
  assumes "detectLoop nodes (map fst nodes) \<lparr>visited = {}, recursionStack = {}, path = []\<rparr> = None"
  shows "acyclic (edgeRel nodes)"
proof -
  let ?s0 = "\<lparr>visited = {}, recursionStack = {}, path = []\<rparr>"
  have "stInv nodes ?s0" "blackInv nodes ?s0" "path ?s0 = []"
    by (simp_all add: stInv_def blackInv_def)
  from detectLoop_correct[OF this, of "map fst nodes"] assms
  obtain s' where s': "stInv nodes s'" "blackInv nodes s'" "path s' = []"
    "set (map fst nodes) \<subseteq> visited s'"
    by auto
  have st: "recursionStack s' = {}" using stInv_stack[OF s'(1)] s'(3) by simp
  have nc: "\<forall>n \<in> visited s'. (n, n) \<notin> (edgeRel nodes)\<^sup>+"
    using s'(2) unfolding blackInv_def st by simp
  show ?thesis
    unfolding acyclic_def
  proof (intro allI notI)
    fix x assume x: "(x, x) \<in> (edgeRel nodes)\<^sup>+"
    then obtain d where "(x, d) \<in> edgeRel nodes" by (meson tranclD)
    then have "x \<in> fst ` set nodes"
      by (auto simp: edgeRel_def depRel_def dest!: map_of_SomeD) force
    then have "x \<in> visited s'" using s'(4) by auto
    with nc x show False by blast
  qed
qed

lemma detectCycle_closedWalk:
  assumes "\<not> acyclic (depRel nodes)"
  shows "closedWalk nodes (detectCycle nodes)"
proof -
  let ?s0 = "\<lparr>visited = {}, recursionStack = {}, path = []\<rparr>"
  have na: "\<not> acyclic (edgeRel nodes)" using assms by (simp add: acyclic_edgeRel_iff)
  then obtain c where c: "detectLoop nodes (map fst nodes) ?s0 = Some c"
    using detectLoop_None_acyclic[of nodes] by (cases "detectLoop nodes (map fst nodes) ?s0") auto
  have "stInv nodes ?s0" "blackInv nodes ?s0" "path ?s0 = []"
    by (simp_all add: stInv_def blackInv_def)
  from detectLoop_correct[OF this, of "map fst nodes"] c
  have "closedWalk nodes c" by simp
  then show ?thesis by (simp add: detectCycle_def c)
qed

section \<open>Soundness of the order and of the levels\<close>

text \<open>
  C1: for every acyclic dependency map, \<open>topologicalSort\<close> returns an order and
  \<open>getParallelLevels\<close> returns levels, and a builder that has filled this dependency map
  returns the graph with them as \<open>executionOrder\<close> and \<open>parallelLevels\<close>. The order lists
  every node once, and every
  dependency of a node that is itself a node comes before it. The levels are a partition
  of the nodes (no level is empty, no node is in two levels or twice in one, every node
  is in some level), and a node of level \<open>k\<close> depends only on nodes of levels before
  \<open>k\<close>; dependencies that are not nodes are ignored.
\<close>

theorem topologicalSort_getParallelLevels_sound:
  assumes d: "distinct (map fst nodes)" and a: "acyclic (depRel nodes)"
  shows "\<exists>order levels.
     topologicalSort nodes = Inr order \<and> getParallelLevels nodes = Inr levels \<and>
     (\<forall>ts roots. depMapOf ts = nodes \<longrightarrow>
        graphOf ts roots = Inr \<lparr>tasks = ts, executionOrder = order, parallelLevels = levels,
                                rootTasks = roots\<rparr>) \<and>
     distinct order \<and> set order = set (map fst nodes) \<and>
     (\<forall>i < length order. \<forall>dep. (order ! i, dep) \<in> depRel nodes \<and> dep \<in> set (map fst nodes)
        \<longrightarrow> (\<exists>j < i. order ! j = dep)) \<and>
     distinct (concat levels) \<and> set (concat levels) = set (map fst nodes) \<and> [] \<notin> set levels \<and>
     (\<forall>k < length levels. \<forall>t \<in> set (levels ! k). \<forall>dep.
        (t, dep) \<in> depRel nodes \<and> dep \<in> set (map fst nodes) \<longrightarrow> (\<exists>j < k. dep \<in> set (levels ! j)))"
proof -
  have ae: "acyclic (edgeRel nodes)" using a by (simp add: acyclic_edgeRel_iff)
  let ?R = "kahnResult nodes"
  have len: "length ?R = length nodes" using kahnResult_length_acyclic[OF d] ae by simp
  then have t: "topologicalSort nodes = Inr ?R" by (simp add: topologicalSort_kahnResult)
  have o1: "distinct ?R" by (rule kahnResult_props(1)[OF d])
  have o2: "set ?R = set (map fst nodes)" using kahnResult_complete[OF d ae] by simp
  have o3: "\<forall>i < length ?R. \<forall>dep. (?R ! i, dep) \<in> depRel nodes \<and> dep \<in> set (map fst nodes)
        \<longrightarrow> (\<exists>j < i. ?R ! j = dep)"
  proof (intro allI impI)
    fix i dep assume i: "i < length ?R"
      and e: "(?R ! i, dep) \<in> depRel nodes \<and> dep \<in> set (map fst nodes)"
    then have "(?R ! i, dep) \<in> edgeRel nodes" by (simp add: edgeRel_def mapHas_iff)
    then have "dep \<in> set (take i ?R)" using kahnResult_props(4)[OF d i] by blast
    then show "\<exists>j < i. ?R ! j = dep"
      by (metis in_set_conv_nth length_take min_less_iff_conj nth_take)
  qed
  obtain L where L: "getParallelLevels nodes = Inr L"
    using levelsLoop_acyclic[OF ae, of "{}" "map fst nodes" "[]"]
    by (auto simp: getParallelLevels_def)
  from levelsLoop_Inr[OF L[unfolded getParallelLevels_def] ]
  have v: "validLevels nodes {} L" and m: "mset (concat L) = mset (map fst nodes)" by auto
  have l1: "distinct (concat L)" using m d by (metis mset_eq_imp_distinct_iff)
  have l2: "set (concat L) = set (map fst nodes)" using m by (rule mset_eq_setD)
  have l3: "[] \<notin> set L" using v by (rule validLevels_nonempty)
  have l4: "\<forall>k < length L. \<forall>t \<in> set (L ! k). \<forall>dep.
        (t, dep) \<in> depRel nodes \<and> dep \<in> set (map fst nodes) \<longrightarrow> (\<exists>j < k. dep \<in> set (L ! j))"
  proof (intro allI ballI impI)
    fix k t dep assume k: "k < length L" and t: "t \<in> set (L ! k)"
      and e: "(t, dep) \<in> depRel nodes \<and> dep \<in> set (map fst nodes)"
    then have "(t, dep) \<in> edgeRel nodes" by (simp add: edgeRel_def mapHas_iff)
    then show "\<exists>j < k. dep \<in> set (L ! j)" using levels_edge[OF v _ k t] by blast
  qed
  have g: "\<forall>ts roots. depMapOf ts = nodes \<longrightarrow>
        graphOf ts roots = Inr \<lparr>tasks = ts, executionOrder = ?R, parallelLevels = L,
                                rootTasks = roots\<rparr>"
    using t L by (simp add: graphOf_def)
  show ?thesis
    by (rule exI[of _ ?R], rule exI[of _ L]) (use t L g o1 o2 o3 l1 l2 l3 l4 in blast)
qed

lemma exampleDeps_acyclic: "acyclic (depRel exampleDeps)"
proof (rule acyclicI_order)
  fix a b assume "(a, b) \<in> depRel exampleDeps"
  then show "(if b = ''web:build'' then 2 else if b = ''utils:build'' then 1 else (0::nat))
      < (if a = ''web:build'' then 2 else if a = ''utils:build'' then 1 else 0)"
    by (auto simp: depRel_def exampleDeps_def split: if_splits)
qed

lemma exampleDeps_order:
  "topologicalSort exampleDeps = Inr [''core:build'', ''utils:build'', ''web:build'']"
  by code_simp

lemma exampleDeps_levels:
  "getParallelLevels exampleDeps = Inr [ [''core:build''], [''utils:build''], [''web:build''] ]"
  by code_simp

theorem topologicalSort_getParallelLevels_sound_witness:
  "\<exists>order levels.
     topologicalSort exampleDeps = Inr order \<and> getParallelLevels exampleDeps = Inr levels \<and>
     distinct order \<and> set order = set (map fst exampleDeps) \<and>
     distinct (concat levels) \<and> set (concat levels) = set (map fst exampleDeps) \<and>
     [] \<notin> set levels"
proof -
  have d: "distinct (map fst exampleDeps)" by (simp add: exampleDeps_def)
  from topologicalSort_getParallelLevels_sound[OF d exampleDeps_acyclic]
  show ?thesis by blast
qed

section \<open>Cycles are reported with a witness\<close>

text \<open>
  C2: for every dependency map that contains a cycle, \<open>topologicalSort\<close>, and with it
  the builder that has filled the map, raises \<open>CyclicDependencyError\<close> with a cycle of
  at least two nodes that is a closed walk in the
  dependency graph: each node is followed by one of its dependencies, and the first node
  equals the last.
\<close>

theorem topologicalSort_cycle:
  assumes "distinct (map fst nodes)" and "\<not> acyclic (depRel nodes)"
  shows "\<exists>c. topologicalSort nodes = Inl (CyclicDependencyError c) \<and>
           (\<forall>ts roots. depMapOf ts = nodes \<longrightarrow> graphOf ts roots = Inl (CyclicDependencyError c)) \<and>
           2 \<le> length c \<and> hd c = last c \<and>
           (\<forall>j. Suc j < length c \<longrightarrow> (c ! j, c ! Suc j) \<in> depRel nodes)"
proof -
  have "\<not> acyclic (edgeRel nodes)" using assms(2) by (simp add: acyclic_edgeRel_iff)
  then have "length (kahnResult nodes) \<noteq> length nodes"
    using kahnResult_length_acyclic[OF assms(1)] by simp
  then have t: "topologicalSort nodes = Inl (CyclicDependencyError (detectCycle nodes))"
    by (simp add: topologicalSort_kahnResult)
  have "closedWalk nodes (detectCycle nodes)" using assms(2) by (rule detectCycle_closedWalk)
  then have "2 \<le> length (detectCycle nodes)" "hd (detectCycle nodes) = last (detectCycle nodes)"
    "\<forall>j. Suc j < length (detectCycle nodes) \<longrightarrow>
       (detectCycle nodes ! j, detectCycle nodes ! Suc j) \<in> depRel nodes"
    unfolding closedWalk_def successively_conv_nth dependsOn_iff by blast+
  moreover have "\<forall>ts roots. depMapOf ts = nodes \<longrightarrow>
      graphOf ts roots = Inl (CyclicDependencyError (detectCycle nodes))"
    using t by (simp add: graphOf_def)
  ultimately show ?thesis using t by blast
qed

lemma cyclicDeps_cyclic: "\<not> acyclic (depRel cyclicDeps)"
proof -
  have "(''a:build'', ''b:build'') \<in> depRel cyclicDeps" "(''b:build'', ''a:build'') \<in> depRel cyclicDeps"
    by (simp_all add: depRel_def cyclicDeps_def)
  then have "(''a:build'', ''a:build'') \<in> (depRel cyclicDeps)\<^sup>+" by (meson trancl.intros)
  then show ?thesis unfolding acyclic_def by blast
qed

lemma cyclicDeps_error:
  "topologicalSort cyclicDeps = Inl (CyclicDependencyError [''a:build'', ''b:build'', ''a:build''])"
  by code_simp

theorem topologicalSort_cycle_witness:
  "\<exists>c. topologicalSort cyclicDeps = Inl (CyclicDependencyError c) \<and> 2 \<le> length c \<and> hd c = last c"
proof -
  have d: "distinct (map fst cyclicDeps)" by (simp add: cyclicDeps_def)
  from topologicalSort_cycle[OF d cyclicDeps_cyclic] show ?thesis by blast
qed

section \<open>The scheduler\<close>

lemma depMapOf_gen:
  "distinct (map fst m @ map fst ts) \<Longrightarrow>
   fold (\<lambda>(tid, task) depMap. AList.update tid (dependencies task) depMap) ts m
     = m @ map (\<lambda>(tid, task). (tid, dependencies task)) ts"
proof (induction ts arbitrary: m)
  case Nil
  then show ?case by simp
next
  case (Cons e ts)
  obtain tid task where e: "e = (tid, task)" by (cases e)
  have fresh: "tid \<notin> fst ` set m" using Cons.prems e by (auto simp flip: set_map)
  have "distinct (map fst (m @ [(tid, dependencies task)]) @ map fst ts)"
    using Cons.prems e by auto
  from Cons.IH[OF this] fresh show ?case by (simp add: e update_fresh)
qed

lemma depMapOf_eq:
  "distinct (map fst ts) \<Longrightarrow> depMapOf ts = map (\<lambda>(tid, task). (tid, dependencies task)) ts"
  using depMapOf_gen[of "[]" ts] by (simp add: depMapOf_def)

lemma depMapOf_keys: "distinct (map fst ts) \<Longrightarrow> map fst (depMapOf ts) = map fst ts"
  by (simp add: depMapOf_eq comp_def case_prod_unfold)

lemma map_of_depMapOf:
  "distinct (map fst ts) \<Longrightarrow> map_of (depMapOf ts) t = map_option dependencies (map_of ts t)"
  unfolding depMapOf_eq by (induction ts) auto

lemma depRel_depMapOf:
  "distinct (map fst (tasks graph)) \<Longrightarrow> depRel (depMapOf (tasks graph)) = taskDeps graph"
  by (auto simp: depRel_def taskDeps_def map_of_depMapOf)

lemma map_taskId_skipped: "map taskId (map skippedResult tids) = tids"
  by (induction tids) (simp_all add: skippedResult_def)

lemma partitionLevel_ok:
  "\<forall>tid \<in> set lv. map_of (tasks graph) tid \<noteq> None \<Longrightarrow>
   \<exists>run skip. partitionLevel graph opts failed lv (r0, s0) = Some (r0 @ run, s0 @ skip)
     \<and> mset run + mset skip = mset lv"
proof (induction lv arbitrary: r0 s0)
  case Nil
  then show ?case by simp
next
  case (Cons tid lv)
  then obtain task where t: "map_of (tasks graph) tid = Some task" by auto
  have rest: "\<forall>tid \<in> set lv. map_of (tasks graph) tid \<noteq> None" using Cons.prems by simp
  show ?case
  proof (cases "list_ex (\<lambda>dep. dep \<in> failed) (dependencies task) \<and> \<not> continueOnError opts")
    case True
    from Cons.IH[OF rest, of r0 "s0 @ [tid]"] obtain run skip where
      "partitionLevel graph opts failed lv (r0, s0 @ [tid]) = Some (r0 @ run, (s0 @ [tid]) @ skip)"
      "mset run + mset skip = mset lv" by blast
    then show ?thesis using t True
      by (intro exI[of _ run] exI[of _ "tid # skip"]) (simp add: Let_def)
  next
    case False
    from Cons.IH[OF rest, of "r0 @ [tid]" s0] obtain run skip where
      "partitionLevel graph opts failed lv (r0 @ [tid], s0) = Some ((r0 @ [tid]) @ run, s0 @ skip)"
      "mset run + mset skip = mset lv" by blast
    then show ?thesis using t False
      by (intro exI[of _ "tid # run"] exI[of _ skip]) (auto simp: Let_def)
  qed
qed

lemma runLevel_ok:
  "tasksOk graph run \<Longrightarrow>
   \<exists>res c f. runLevel outcome graph run (r0, c0, f0) = Some (r0 @ res, c, f)
     \<and> map taskId res = run \<and> f = f0 \<union> taskId ` {r \<in> set res. status r = Failed}"
proof (induction run arbitrary: r0 c0 f0)
  case Nil
  then show ?case by simp
next
  case (Cons tid run)
  then obtain task where t: "map_of (tasks graph) tid = Some task" "id' task = tid"
    by (auto simp: tasksOk_def)
  have rest: "tasksOk graph run" using Cons.prems by (simp add: tasksOk_def)
  let ?r = "runTask outcome task"
  have rid: "taskId ?r = tid" using t(2) by (simp add: runTask_def)
  let ?c1 = "if status ?r = Success \<or> status ?r = Cached then insert tid c0 else c0"
  let ?f1 = "if status ?r = Failed then insert tid f0 else f0"
  have step: "runLevel outcome graph (tid # run) (r0, c0, f0)
      = runLevel outcome graph run (r0 @ [?r], ?c1, ?f1)"
    using t(1) by (auto simp: Let_def)
  from Cons.IH[OF rest, of "r0 @ [?r]" ?c1 ?f1] obtain res c f where
    r: "runLevel outcome graph run (r0 @ [?r], ?c1, ?f1) = Some ((r0 @ [?r]) @ res, c, f)"
    "map taskId res = run" "f = ?f1 \<union> taskId ` {r \<in> set res. status r = Failed}" by blast
  have "f = f0 \<union> taskId ` {r \<in> set (?r # res). status r = Failed}"
    using r(3) rid by auto
  then show ?case using step r(1,2) rid
    by (intro exI[of _ "?r # res"] exI[of _ c] exI[of _ f]) simp
qed

lemma all_skipped:
  "\<not> continueOnError opts \<Longrightarrow> failedTasks st \<noteq> {} \<Longrightarrow>
   scheduleLevels outcome graph opts todo st
     = Some (st\<lparr>results := results st @ map skippedResult (concat todo)\<rparr>)"
proof (induction todo arbitrary: st)
  case Nil
  then show ?case by simp
next
  case (Cons lv todo)
  have "failedTasks (st\<lparr>results := results st @ map skippedResult lv\<rparr>) \<noteq> {}"
    using Cons.prems(2) by simp
  from Cons.IH[OF Cons.prems(1) this] Cons.prems show ?case by simp
qed

lemma taskId_skipped_comp: "taskId \<circ> skippedResult = (\<lambda>tid. tid)"
  by (auto simp: skippedResult_def)

lemma tasksOk_mset: "tasksOk graph xs \<Longrightarrow> set ys \<subseteq> set xs \<Longrightarrow> tasksOk graph ys"
  by (auto simp: tasksOk_def)

lemma level_step:
  assumes ok: "tasksOk graph lv" and go: "continueOnError opts \<or> failedTasks st = {}"
  shows "\<exists>newLv st1.
     (\<forall>rest. scheduleLevels outcome graph opts (lv # rest) st = scheduleLevels outcome graph opts rest st1) \<and>
     results st1 = results st @ newLv \<and> mset (map taskId newLv) = mset lv \<and>
     failedTasks st1 = failedTasks st \<union> taskId ` {r \<in> set newLv. status r = Failed}"
proof -
  have "\<forall>tid \<in> set lv. map_of (tasks graph) tid \<noteq> None" using ok by (auto simp: tasksOk_def)
  from partitionLevel_ok[OF this, of opts "failedTasks st" "[]" "[]"] obtain run skip where
    p: "partitionLevel graph opts (failedTasks st) lv ([], []) = Some (run, skip)"
    and m: "mset run + mset skip = mset lv" by auto
  have "set run \<subseteq> set lv" using m by (metis mset_subset_eq_add_left set_mset_mono set_mset_mset)
  then have okr: "tasksOk graph run" using ok by (rule tasksOk_mset[rotated])
  from runLevel_ok[OF okr, of outcome "[]" "completedTasks st" "failedTasks st"] obtain res c f where
    r: "runLevel outcome graph run ([], completedTasks st, failedTasks st) = Some (res, c, f)"
    and ids: "map taskId res = run"
    and f: "f = failedTasks st \<union> taskId ` {r \<in> set res. status r = Failed}" by auto
  let ?newLv = "map skippedResult skip @ res"
  let ?st1 = "\<lparr>results = results st @ ?newLv, completedTasks = c, failedTasks = f\<rparr>"
  have 1: "\<forall>rest. scheduleLevels outcome graph opts (lv # rest) st = scheduleLevels outcome graph opts rest ?st1"
    using go p r by auto
  have 2: "mset (map taskId ?newLv) = mset lv"
    using m ids by (simp add: taskId_skipped_comp add.commute)
  have "{r \<in> set ?newLv. status r = Failed} = {r \<in> set res. status r = Failed}"
    by (auto simp: skippedResult_def)
  then have 3: "failedTasks ?st1 = failedTasks st \<union> taskId ` {r \<in> set ?newLv. status r = Failed}"
    using f by simp
  show ?thesis using 1 2 3
    by (intro exI[of _ ?newLv] exI[of _ ?st1]) simp
qed

lemma cascade_all_skipped: "cascade todo (map skippedResult tids)"
  by (auto simp: cascade_def skippedResult_def)

lemma schedule_main:
  assumes "tasksOk graph (concat todo)" and "distinct (concat todo)"
  shows "\<exists>st' new. scheduleLevels outcome graph opts todo st = Some st' \<and>
     results st' = results st @ new \<and> mset (map taskId new) = mset (concat todo) \<and>
     (\<not> continueOnError opts \<longrightarrow> cascade todo new)"
  using assms
proof (induction todo arbitrary: st)
  case Nil
  then show ?case by (simp add: cascade_def)
next
  case (Cons lv rest)
  have okl: "tasksOk graph lv" and okr: "tasksOk graph (concat rest)"
    using Cons.prems(1) by (simp_all add: tasksOk_def)
  have dr: "distinct (concat rest)" and disj: "set lv \<inter> set (concat rest) = {}"
    using Cons.prems(2) by auto
  show ?case
  proof (cases "\<not> continueOnError opts \<and> failedTasks st \<noteq> {}")
    case True
    then have "scheduleLevels outcome graph opts (lv # rest) st
        = Some (st\<lparr>results := results st @ map skippedResult (concat (lv # rest))\<rparr>)"
      by (intro all_skipped) simp_all
    then show ?thesis
      by (intro exI[of _ "st\<lparr>results := results st @ map skippedResult (concat (lv # rest))\<rparr>"]
          exI[of _ "map skippedResult (concat (lv # rest))"])
        (simp add: taskId_skipped_comp cascade_all_skipped del: concat.simps)
  next
    case False
    then have go: "continueOnError opts \<or> failedTasks st = {}" by blast
    from level_step[OF okl go, of outcome] obtain newLv st1 where
      s1: "\<And>rest. scheduleLevels outcome graph opts (lv # rest) st = scheduleLevels outcome graph opts rest st1"
      and r1: "results st1 = results st @ newLv" and m1: "mset (map taskId newLv) = mset lv"
      and f1: "failedTasks st1 = failedTasks st \<union> taskId ` {r \<in> set newLv. status r = Failed}"
      by blast
    from Cons.IH[OF okr dr, of st1] obtain st' newRest where
      s2: "scheduleLevels outcome graph opts rest st1 = Some st'"
      and r2: "results st' = results st1 @ newRest"
      and m2: "mset (map taskId newRest) = mset (concat rest)"
      and c2: "\<not> continueOnError opts \<longrightarrow> cascade rest newRest" by blast
    have idsLv: "taskId ` set newLv = set lv" using m1 by (metis set_map set_mset_mset)
    have idsRest: "taskId ` set newRest = set (concat rest)" using m2 by (metis set_map set_mset_mset)
    have inLv: "x \<in> set newLv" if "x \<in> set (newLv @ newRest)" "taskId x \<in> set lv" for x
      using that idsRest disj by auto
    have inRest: "x \<in> set newRest" if "x \<in> set (newLv @ newRest)" "taskId x \<in> set (concat rest)" for x
      using that idsLv disj by auto
    have casc: "cascade (lv # rest) (newLv @ newRest)" if nc: "\<not> continueOnError opts"
      unfolding cascade_def
    proof (intro allI impI)
      fix i j x r
      assume a: "i < j \<and> j < length (lv # rest) \<and> x \<in> set (newLv @ newRest) \<and> r \<in> set (newLv @ newRest) \<and>
        taskId x \<in> set ((lv # rest) ! i) \<and> status x = Failed \<and> taskId r \<in> set ((lv # rest) ! j)"
      then have ij: "i < j" "j < length (lv # rest)"
        and xin: "x \<in> set (newLv @ newRest)" and rin: "r \<in> set (newLv @ newRest)"
        and xi: "taskId x \<in> set ((lv # rest) ! i)" and xf: "status x = Failed"
        and rjj: "taskId r \<in> set ((lv # rest) ! j)" by blast+
      from ij obtain j' where j: "j = Suc j'" "j' < length rest" by (cases j) auto
      have rj: "taskId r \<in> set (rest ! j')" using rjj j by simp
      then have "taskId r \<in> set (concat rest)" using j(2) by auto
      then have rR: "r \<in> set newRest" using rin inRest by blast
      show "status r = Skipped \<and> duration r = 0"
      proof (cases i)
        case 0
        then have "taskId x \<in> set lv" using xi by simp
        then have "x \<in> set newLv" using xin inLv by blast
        then have "taskId x \<in> failedTasks st1" using xf f1 by blast
        then have "failedTasks st1 \<noteq> {}" by blast
        from all_skipped[OF nc this, of outcome graph rest] s2 r2
        have "newRest = map skippedResult (concat rest)" by auto
        with rR show ?thesis by (auto simp: skippedResult_def)
      next
        case (Suc i')
        then have i': "taskId x \<in> set (rest ! i')" "i' < j'" "i' < length rest"
          using xi ij j by auto
        then have "taskId x \<in> set (concat rest)" by auto
        then have xR: "x \<in> set newRest" using xin inRest by blast
        have "cascade rest newRest" using c2 nc by blast
        then show ?thesis unfolding cascade_def using i'(1,2) j(2) xR rR xf rj by blast
      qed
    qed
    show ?thesis
      using s1[of rest] s2 r1 r2 m1 m2 casc
      by (intro exI[of _ st'] exI[of _ "newLv @ newRest"]) simp
  qed
qed

lemma graphOf_Inr:
  assumes "graphOf ts roots = Inr graph"
  shows "tasks graph = ts" and "getParallelLevels (depMapOf ts) = Inr (parallelLevels graph)"
    and "topologicalSort (depMapOf ts) = Inr (executionOrder graph)"
  using assms by (auto simp: graphOf_def Let_def split: sum.splits)

lemma graph_levels:
  assumes w: "wfTasks ts" and g: "graphOf ts roots = Inr graph"
  shows "validLevels (depMapOf ts) {} (parallelLevels graph)"
    and "mset (concat (parallelLevels graph)) = mset (map fst ts)"
    and "distinct (concat (parallelLevels graph))"
    and "tasksOk graph (concat (parallelLevels graph))"
proof -
  have d: "distinct (map fst ts)" using w by (simp add: wfTasks_def)
  note G = graphOf_Inr[OF g]
  from levelsLoop_Inr[OF G(2)[unfolded getParallelLevels_def] ]
  show v: "validLevels (depMapOf ts) {} (parallelLevels graph)"
    and m: "mset (concat (parallelLevels graph)) = mset (map fst ts)"
    by (auto simp: depMapOf_keys[OF d])
  show "distinct (concat (parallelLevels graph))" using m d by (metis mset_eq_imp_distinct_iff)
  show "tasksOk graph (concat (parallelLevels graph))"
    unfolding tasksOk_def
  proof
    fix tid assume "tid \<in> set (concat (parallelLevels graph))"
    then have "tid \<in> set (map fst ts)" using m by (metis mset_eq_setD)
    then obtain task where t: "(tid, task) \<in> set ts" by auto
    then have "map_of ts tid = Some task" using d by simp
    moreover have "id' task = tid" using w t by (auto simp: wfTasks_def list_all_iff)
    ultimately show "\<exists>task. map_of (tasks graph) tid = Some task \<and> id' task = tid"
      using G(1) by simp
  qed
qed

lemma exampleTasks_wf: "wfTasks exampleTasks"
  by (simp add: wfTasks_def exampleTasks_def buildTask_def)

lemma exampleGraph_built: "graphOf exampleTasks [''web:build''] = Inr exampleGraph"
  by code_simp

lemma exampleGraph_run: "scheduleTasks coreFails exampleGraph stopOnError = Some exampleResults"
  by code_simp

text \<open>
  C4, as stated: for every task graph and every scheduler configuration, any concurrency
  included, \<open>scheduleTasks\<close> returns exactly one result per task of \<open>graph.tasks\<close>. This
  fails for a concurrency of 0, which the integer flag of the \<open>run\<close> command accepts:
  \<open>pLimit\<close> throws before the first level is read, and \<open>scheduleTasks\<close> returns no result
  list for the three tasks of a graph that the builder has made.
\<close>

theorem scheduleTasks_concurrency_zero:
  "graphOf exampleTasks [''web:build''] = Inr exampleGraph \<and>
   length (tasks exampleGraph) = 3 \<and>
   scheduleTasks coreFails exampleGraph \<lparr>concurrency = 0, continueOnError = False\<rparr> = None"
  using exampleGraph_built
  by (simp add: scheduleTasks_def pLimit_def exampleGraph_def exampleTasks_def)

text \<open>
  C4, amended: for every task graph that a builder has made and every scheduler
  configuration whose concurrency is at least 1 (any \<open>continueOnError\<close> value, with or
  without failures, whatever the tasks return), \<open>scheduleTasks\<close> returns exactly one
  result per task of \<open>graph.tasks\<close>: the multiset of the task ids of the results is that
  of the keys of the map.
\<close>

theorem scheduleTasks_one_result_per_task:
  assumes "wfTasks ts" and "graphOf ts roots = Inr graph" and "1 \<le> concurrency opts"
  shows "\<exists>rs. scheduleTasks outcome graph opts = Some rs \<and>
           mset (map taskId rs) = mset (map fst (tasks graph))"
proof -
  note L = graph_levels[OF assms(1,2)]
  from schedule_main[OF L(4) L(3), of outcome opts "\<lparr>results = [], completedTasks = {}, failedTasks = {}\<rparr>"]
  obtain st' new where "scheduleLevels outcome graph opts (parallelLevels graph)
      \<lparr>results = [], completedTasks = {}, failedTasks = {}\<rparr> = Some st'"
    "results st' = new" "mset (map taskId new) = mset (concat (parallelLevels graph))"
    by auto
  then show ?thesis using L(2) graphOf_Inr(1)[OF assms(2)] assms(3)
    by (simp add: scheduleTasks_def pLimit_def)
qed

theorem scheduleTasks_one_result_per_task_witness:
  "wfTasks exampleTasks \<and> graphOf exampleTasks [''web:build''] = Inr exampleGraph \<and>
   1 \<le> concurrency stopOnError \<and>
   scheduleTasks coreFails exampleGraph stopOnError = Some exampleResults \<and>
   mset (map taskId exampleResults) = mset (map fst (tasks exampleGraph))"
proof -
  have c: "1 \<le> concurrency stopOnError" by (simp add: stopOnError_def)
  from scheduleTasks_one_result_per_task[OF exampleTasks_wf exampleGraph_built c, of coreFails]
  obtain rs where "scheduleTasks coreFails exampleGraph stopOnError = Some rs"
    and "mset (map taskId rs) = mset (map fst (tasks exampleGraph))" by blast
  with exampleGraph_run
  have "mset (map taskId exampleResults) = mset (map fst (tasks exampleGraph))" by simp
  then show ?thesis using exampleTasks_wf exampleGraph_built c exampleGraph_run by simp
qed

text \<open>
  C3: when \<open>scheduleTasks\<close> runs with \<open>continueOnError = false\<close> on a graph that a builder
  has made, and the result of some task \<open>X\<close> is \<open>failed\<close>, then every task \<open>t\<close> that has \<open>X\<close>
  among its transitive dependencies has a result in the returned list, and that result
  is \<open>skipped\<close> with duration 0.
\<close>

theorem scheduleTasks_failure_cascade:
  assumes w: "wfTasks ts" and g: "graphOf ts roots = Inr graph"
    and nc: "\<not> continueOnError opts"
    and run: "scheduleTasks outcome graph opts = Some rs"
    and x: "x \<in> set rs" and xf: "status x = Failed"
    and dep: "(t, taskId x) \<in> (taskDeps graph)\<^sup>+"
  shows "(\<exists>r \<in> set rs. taskId r = t) \<and>
         (\<forall>r \<in> set rs. taskId r = t \<longrightarrow> status r = Skipped \<and> duration r = 0)"
proof -
  let ?L = "parallelLevels graph"
  let ?nodes = "depMapOf ts"
  have d: "distinct (map fst ts)" using w by (simp add: wfTasks_def)
  note L = graph_levels[OF w g]
  note G = graphOf_Inr[OF g]
  from run obtain st where st: "scheduleLevels outcome graph opts ?L
      \<lparr>results = [], completedTasks = {}, failedTasks = {}\<rparr> = Some st" "results st = rs"
    by (auto simp: scheduleTasks_def split: option.splits)
  from schedule_main[OF L(4) L(3), of outcome opts "\<lparr>results = [], completedTasks = {}, failedTasks = {}\<rparr>"]
    st nc
  have ids: "mset (map taskId rs) = mset (concat ?L)" and casc: "cascade ?L rs"
    by auto
  have keys: "set (concat ?L) = set (map fst ts)" using L(2) by (rule mset_eq_setD)
  have idset: "taskId ` set rs = set (concat ?L)" using ids by (metis set_map set_mset_mset)
  have rel: "depRel ?nodes = taskDeps graph" using depRel_depMapOf[of graph] d G(1) by simp
  have xk: "taskId x \<in> set (map fst ts)" using x idset keys by blast
  then have "mapHas ?nodes (taskId x)" using depMapOf_keys[OF d] by (metis mapHas_iff set_map)
  with dep have e: "(t, taskId x) \<in> (edgeRel ?nodes)\<^sup>+"
    unfolding rel[symmetric] by (rule depRel_trancl_edgeRel_has)
  then obtain y where "(t, y) \<in> edgeRel ?nodes" by (meson tranclD)
  then have "t \<in> fst ` set ?nodes"
    by (auto simp: edgeRel_def depRel_def dest!: map_of_SomeD) force
  then have tk: "t \<in> set (concat ?L)" using keys depMapOf_keys[OF d] by (metis set_map)
  then obtain lv where "lv \<in> set ?L" "t \<in> set lv" by auto
  then obtain k where k: "k < length ?L" "t \<in> set (?L ! k)" by (metis in_set_conv_nth)
  from levels_trancl[OF L(1) e k] obtain j where j: "j < k" "taskId x \<in> set (?L ! j)" by blast
  have ex: "\<exists>r \<in> set rs. taskId r = t" using tk idset by (metis imageE)
  have "status r = Skipped \<and> duration r = 0" if "r \<in> set rs" "taskId r = t" for r
    using casc j k x xf that unfolding cascade_def by blast
  with ex show ?thesis by blast
qed

theorem scheduleTasks_failure_cascade_witness:
  "scheduleTasks coreFails exampleGraph stopOnError = Some exampleResults \<and>
   status (exampleResults ! 0) = Failed \<and> taskId (exampleResults ! 0) = ''core:build'' \<and>
   taskId (exampleResults ! 2) = ''web:build'' \<and>
   status (exampleResults ! 2) = Skipped \<and> duration (exampleResults ! 2) = 0"
proof -
  have nc: "\<not> continueOnError stopOnError" by (simp add: stopOnError_def)
  have x: "exampleResults ! 0 \<in> set exampleResults" and r: "exampleResults ! 2 \<in> set exampleResults"
    by (simp_all add: exampleResults_def)
  have xf: "status (exampleResults ! 0) = Failed" and xid: "taskId (exampleResults ! 0) = ''core:build''"
    and rid: "taskId (exampleResults ! 2) = ''web:build''"
    by (simp_all add: exampleResults_def skippedResult_def)
  have "(''web:build'', ''core:build'') \<in> taskDeps exampleGraph"
    by (simp add: taskDeps_def exampleGraph_def exampleTasks_def buildTask_def)
  then have dep: "(''web:build'', taskId (exampleResults ! 0)) \<in> (taskDeps exampleGraph)\<^sup>+"
    unfolding xid by (rule r_into_trancl)
  from scheduleTasks_failure_cascade[OF exampleTasks_wf exampleGraph_built nc exampleGraph_run x xf dep]
  have "status (exampleResults ! 2) = Skipped \<and> duration (exampleResults ! 2) = 0"
    using r rid by blast
  then show ?thesis using exampleGraph_run xf xid rid by simp
qed

end
